theory Spec2Isabelle
  imports Main
begin

section \<open>The document the controller works on\<close>

text \<open>
  The script \<^verbatim>\<open>ai-script.js\<close> owns one field, \<^verbatim>\<open>currentSection\<close>, and otherwise reads and
  writes the page. The page is a parameter of the model: a list of elements in document
  order, each with the attributes, classes and inline styles the script addresses. A node
  reference held by a closure (\<^verbatim>\<open>currentEl\<close>, \<^verbatim>\<open>activeLink\<close>, \<^verbatim>\<open>section\<close>) is the position of
  the element in that list. Strings are sequences of bytes (UTF-8).
\<close>

record card =
  opacity :: string
  card_transform :: string
  transition :: string

record element =
  el_id :: string                   \<comment> \<open>the id attribute, empty when absent\<close>
  content_section :: bool           \<comment> \<open>carries class \<^verbatim>\<open>content-section\<close>\<close>
  nav_link :: bool                  \<comment> \<open>carries class \<^verbatim>\<open>nav-link\<close>\<close>
  data_chapter :: "string option"   \<comment> \<open>the \<^verbatim>\<open>data-chapter\<close> attribute, \<open>None\<close> when absent\<close>
  active :: bool                    \<comment> \<open>carries class \<^verbatim>\<open>active\<close>\<close>
  animation :: string               \<comment> \<open>\<^verbatim>\<open>style.animation\<close>\<close>
  transform :: string               \<comment> \<open>\<^verbatim>\<open>style.transform\<close>\<close>
  textContent :: string
  cards :: "card list"              \<comment> \<open>the animatable descendants, in document order\<close>
  marks :: "string list"            \<comment> \<open>search terms currently wrapped in \<^verbatim>\<open>mark\<close> elements\<close>

text \<open>
  A notification: \<open>message\<close> is the string that \<^verbatim>\<open>showNotification\<close> places, as it is, inside
  the \<^verbatim>\<open>span\<close> of the markup it assigns to \<^verbatim>\<open>innerHTML\<close>.
\<close>

record notification =
  message :: string
  severity :: string
  note_transform :: string
  attached :: bool

text \<open>
  Every closure handed to \<^verbatim>\<open>setTimeout\<close> by the modelled methods, with the values it
  captures. The argument of \<^verbatim>\<open>navigateToChapter\<close> is a string or \<^verbatim>\<open>null\<close> (\<open>None\<close>): the click
  listener passes on what \<^verbatim>\<open>getAttribute\<close> returns.
\<close>

datatype callback =
    NavExit nat              \<comment> \<open>\<^verbatim>\<open>navigateToChapter\<close>, 300 ms: captures \<^verbatim>\<open>currentEl\<close>\<close>
  | NavEnter "string option" \<comment> \<open>\<^verbatim>\<open>navigateToChapter\<close>, 150 ms: captures \<^verbatim>\<open>chapter\<close>\<close>
  | LinkFeedback nat         \<comment> \<open>\<^verbatim>\<open>updateActiveNav\<close>, 150 ms: captures \<^verbatim>\<open>activeLink\<close>\<close>
  | CardIn nat nat           \<comment> \<open>\<^verbatim>\<open>animateSection\<close>, index * 100 ms: section and card\<close>
  | SearchHighlight nat string   \<comment> \<open>\<^verbatim>\<open>performSearch\<close>, 500 ms\<close>
  | HighlightClear nat       \<comment> \<open>\<^verbatim>\<open>highlightText\<close>, 5000 ms\<close>
  | NoteIn nat               \<comment> \<open>\<^verbatim>\<open>showNotification\<close>, 10 ms\<close>
  | NoteOut nat              \<comment> \<open>\<^verbatim>\<open>showNotification\<close>, 3000 ms\<close>
  | NoteRemove nat           \<comment> \<open>\<^verbatim>\<open>showNotification\<close>, 300 ms after \<^verbatim>\<open>NoteOut\<close>\<close>

record timer =
  due :: nat
  cb :: callback

text \<open>
  What the script takes from the host. The string functions are those of the engine,
  whatever they do beyond ASCII; \<open>regexp_ok\<close> tells for which patterns
  \<^verbatim>\<open>new RegExp(term, 'gi')\<close> returns instead of throwing.
\<close>

record host =
  toLowerCase :: "string \<Rightarrow> string"   \<comment> \<open>\<^verbatim>\<open>String.prototype.toLowerCase\<close>\<close>
  trim :: "string \<Rightarrow> string"          \<comment> \<open>\<^verbatim>\<open>String.prototype.trim\<close>\<close>
  regexp_ok :: "string \<Rightarrow> bool"
  pushState_supported :: bool           \<comment> \<open>whether \<^verbatim>\<open>history.pushState\<close> is truthy\<close>

record state =
  currentSection :: "string option"  \<comment> \<open>a string, or \<^verbatim>\<open>null\<close>\<close>
  doc :: "element list"
  timers :: "timer list"            \<comment> \<open>pending timers, in order of creation\<close>
  now :: nat                        \<comment> \<open>the clock, in milliseconds\<close>
  location_hash :: string           \<comment> \<open>what \<^verbatim>\<open>window.location.hash\<close> reads\<close>
  loads :: nat                      \<comment> \<open>how many times the window has loaded a document\<close>
  host :: host
  scrollTop :: "nat option"         \<comment> \<open>of \<^verbatim>\<open>.main-content\<close>; \<open>None\<close> when there is no such element\<close>
  notifications :: "notification list"

subsection \<open>Queries\<close>

fun first_index :: "('a \<Rightarrow> bool) \<Rightarrow> 'a list \<Rightarrow> nat option" where
  "first_index P [] = None"
| "first_index P (x # xs) = (if P x then Some 0 else map_option Suc (first_index P xs))"

text \<open>The string a value stands for where the host expects a string: \<^verbatim>\<open>null\<close> reads \<^verbatim>\<open>"null"\<close>.\<close>

definition js_string :: "string option \<Rightarrow> string" where
  "js_string v = (case v of None \<Rightarrow> ''null'' | Some str \<Rightarrow> str)"

text \<open>\<^verbatim>\<open>document.getElementById\<close>: the first element with that id; no element has the empty id.\<close>

definition getElementById :: "string \<Rightarrow> element list \<Rightarrow> nat option" where
  "getElementById i d = (if i = [] then None else first_index (\<lambda>e. el_id e = i) d)"

text \<open>
  An identifier that stands for itself between the double quotes of a selector: it has no
  double quote, backslash, NUL, line feed, form feed or carriage return.
\<close>

definition selector_safe :: "string \<Rightarrow> bool" where
  "selector_safe c = (\<forall>x\<in>set c. (of_char x :: nat) \<notin> {0, 10, 12, 13, 34, 92})"

text \<open>
  \<^verbatim>\<open>document.querySelector('[data-chapter="..."]')\<close> for a \<open>selector_safe\<close> identifier: the
  first element whose attribute has that value. For other identifiers the selector is
  another one or none at all; no statement below runs the query on them.
\<close>

definition querySelector_data_chapter :: "string \<Rightarrow> element list \<Rightarrow> nat option" where
  "querySelector_data_chapter c d = first_index (\<lambda>e. data_chapter e = Some c) d"

subsection \<open>Timers\<close>

definition setTimeout :: "callback \<Rightarrow> nat \<Rightarrow> state \<Rightarrow> state" where
  "setTimeout f delay s = s\<lparr>timers := timers s @ [\<lparr>due = now s + delay, cb = f\<rparr>]\<rparr>"

subsection \<open>The fragment of the URL\<close>

text \<open>
  \<^verbatim>\<open>history.pushState(null, null, '#' + chapter)\<close> parses its last argument as a URL: white
  space and control characters at the end are dropped, tabs and line breaks are removed,
  and in the fragment every control character, space, double quote, \<^verbatim>\<open><\<close>, \<^verbatim>\<open>>\<close>, backquote
  and byte above \<^verbatim>\<open>~\<close> is written as \<^verbatim>\<open>%\<close> and two hexadecimal digits.
\<close>

definition hex_digit :: "nat \<Rightarrow> char" where
  "hex_digit n = (if n < 10 then char_of (48 + n) else char_of (55 + n))"

definition percent_encode :: "char \<Rightarrow> string" where
  "percent_encode c =
     (let n = (of_char c :: nat)
      in if n \<le> 32 \<or> n = 34 \<or> n = 60 \<or> n = 62 \<or> n = 96 \<or> 126 < n
         then [CHR ''%'', hex_digit (n div 16), hex_digit (n mod 16)]
         else [c])"

definition url_fragment :: "string \<Rightarrow> string" where
  "url_fragment str =
     (let kept = rev (dropWhile (\<lambda>c. (of_char c :: nat) \<le> 32) (rev str));
          joined = filter (\<lambda>c. (of_char c :: nat) \<notin> {9, 10, 13}) kept
      in concat (map percent_encode joined))"

text \<open>\<^verbatim>\<open>location.hash\<close> after the call: empty when the fragment is.\<close>

definition hash_of :: "string \<Rightarrow> string" where
  "hash_of str = (if url_fragment str = [] then [] else CHR ''#'' # url_fragment str)"

text \<open>An identifier that the URL keeps as it is.\<close>

definition url_plain :: "string \<Rightarrow> bool" where
  "url_plain str = (str \<noteq> [] \<and> (\<forall>c\<in>set str. 32 < (of_char c :: nat) \<and> (of_char c :: nat) \<le> 126
                                  \<and> (of_char c :: nat) \<notin> {34, 60, 62, 96}))"

section \<open>The controller's methods\<close>

text \<open>
  \<^verbatim>\<open>animateSection\<close>: every card of the section is hidden and shifted, and card number
  \<open>k\<close> gets a timer \<open>k * 100\<close> ms ahead that fades it in.
\<close>

definition animateSection :: "nat \<Rightarrow> state \<Rightarrow> state" where
  "animateSection t s =
     (let e = doc s ! t;
          hidden = map (\<lambda>c. c\<lparr>opacity := ''0'', card_transform := ''translateY(30px)''\<rparr>) (cards e)
      in s\<lparr>doc := (doc s)[t := e\<lparr>cards := hidden\<rparr>],
            timers := timers s @
              map (\<lambda>k. \<lparr>due = now s + k * 100, cb = CardIn t k\<rparr>) [0..<length (cards e)]\<rparr>)"

text \<open>
  \<^verbatim>\<open>showSection\<close>. Its argument is used once, as the argument of \<^verbatim>\<open>getElementById\<close>, so it
  is given here as the string that call receives.
\<close>

definition showSection :: "string \<Rightarrow> state \<Rightarrow> state" where
  "showSection sectionId s =
     (let d1 = map (\<lambda>e. if content_section e then e\<lparr>active := False\<rparr> else e) (doc s)
      in case getElementById sectionId d1 of
           None \<Rightarrow> s\<lparr>doc := d1\<rparr>
         | Some t \<Rightarrow>
             animateSection t
               (s\<lparr>doc := d1[t := (d1 ! t)\<lparr>active := True\<rparr>],
                  scrollTop := map_option (\<lambda>_. 0) (scrollTop s)\<rparr>))"

text \<open>
  \<^verbatim>\<open>playTransitionSound\<close> builds a fresh audio context inside \<^verbatim>\<open>try\<close>/\<^verbatim>\<open>catch\<close> and
  touches neither the controller nor the document.
\<close>

definition playTransitionSound :: "state \<Rightarrow> state" where
  "playTransitionSound s = s"

definition navigateToChapter :: "string option \<Rightarrow> state \<Rightarrow> state" where
  "navigateToChapter chapter s =
     (if currentSection s = chapter then s
      else
        let currentEl = getElementById (js_string (currentSection s)) (doc s);
            nextEl = getElementById (js_string chapter) (doc s)
        in case nextEl of
             None \<Rightarrow> s
           | Some _ \<Rightarrow>
               let s1 = (case currentEl of
                           None \<Rightarrow> s
                         | Some c \<Rightarrow>
                             setTimeout (NavExit c) 300
                               (s\<lparr>doc := (doc s)[c := (doc s ! c)\<lparr>animation := ''fadeOut 0.3s ease-out''\<rparr>]\<rparr>))
               in setTimeout (NavEnter chapter) 150 s1)"

definition updateActiveNav :: "nat \<Rightarrow> state \<Rightarrow> state" where
  "updateActiveNav activeLink s =
     (let d1 = map (\<lambda>e. if nav_link e then e\<lparr>active := False\<rparr> else e) (doc s);
          d2 = d1[activeLink := (d1 ! activeLink)\<lparr>active := True, transform := ''scale(0.98)''\<rparr>]
      in setTimeout (LinkFeedback activeLink) 150 (s\<lparr>doc := d2\<rparr>))"

text \<open>
  The two lines that follow every keyboard and search navigation:
  \<^verbatim>\<open>const navLink = document.querySelector(...); if (navLink) this.updateActiveNav(navLink);\<close>
\<close>

definition markNavLink :: "string \<Rightarrow> state \<Rightarrow> state" where
  "markNavLink chapter s =
     (case querySelector_data_chapter chapter (doc s) of
        None \<Rightarrow> s
      | Some navLink \<Rightarrow> updateActiveNav navLink s)"

subsection \<open>Notifications\<close>

definition showNotification :: "string \<Rightarrow> string \<Rightarrow> state \<Rightarrow> state" where
  "showNotification msg type s =
     (let k = length (notifications s);
          s1 = s\<lparr>notifications := notifications s @
                 [\<lparr>message = msg, severity = type,
                   note_transform = ''translateX(350px)'', attached = True\<rparr>]\<rparr>
      in setTimeout (NoteOut k) 3000 (setTimeout (NoteIn k) 10 s1))"

text \<open>
  The message reaches the page through \<^verbatim>\<open>innerHTML\<close>, so it is read as markup. A string
  without \<^verbatim>\<open><\<close>, \<^verbatim>\<open>&\<close>, NUL and carriage return is its own text and adds no element.
\<close>

definition plain_text :: "string \<Rightarrow> bool" where
  "plain_text str = (\<forall>c\<in>set str. (of_char c :: nat) \<notin> {0, 13, 38, 60})"

text \<open>
  The text that is left of a string read as markup, for markup made of tags without quoted
  \<^verbatim>\<open>>\<close>, comments, character references or raw-text elements: a \<^verbatim>\<open><\<close> followed by a letter,
  \<^verbatim>\<open>/\<close>, \<^verbatim>\<open>!\<close> or \<^verbatim>\<open>?\<close> opens a tag, which ends at the next \<^verbatim>\<open>>\<close> and is not text.
\<close>

definition opens_tag :: "string \<Rightarrow> bool" where
  "opens_tag rest =
     (case rest of
        [] \<Rightarrow> False
      | c # _ \<Rightarrow>
          (let n = (of_char c :: nat)
           in (65 \<le> n \<and> n \<le> 90) \<or> (97 \<le> n \<and> n \<le> 122) \<or> n = 47 \<or> n = 33 \<or> n = 63))"

fun html_text_from :: "bool \<Rightarrow> string \<Rightarrow> string" where
  "html_text_from in_tag [] = []"
| "html_text_from True (c # cs) =
     (if c = CHR ''>'' then html_text_from False cs else html_text_from True cs)"
| "html_text_from False (c # cs) =
     (if c = CHR ''<'' \<and> opens_tag cs then html_text_from True cs else c # html_text_from False cs)"

definition html_text :: "string \<Rightarrow> string" where
  "html_text str = html_text_from False str"

subsection \<open>Keyboard navigation\<close>

definition chapters :: "string list" where
  "chapters = [''introduction'', ''genesis'', ''evolution'', ''current-state'',
               ''human-transformation'', ''dark-side'', ''psychological-impact'',
               ''future-scenarios'', ''singularity'', ''conclusion'']"

text \<open>
  \<^verbatim>\<open>Array.prototype.indexOf\<close>: the first position of the value, or -1; \<^verbatim>\<open>null\<close> is at no
  position of a list of strings.
\<close>

definition indexOf :: "string list \<Rightarrow> string option \<Rightarrow> int" where
  "indexOf xs x = (case first_index (\<lambda>y. Some y = x) xs of None \<Rightarrow> - 1 | Some k \<Rightarrow> int k)"

text \<open>The two conditional expressions that compute \<^verbatim>\<open>nextIndex\<close> from the key and \<^verbatim>\<open>currentIndex\<close>.\<close>

definition nextIndex :: "string \<Rightarrow> int \<Rightarrow> int" where
  "nextIndex key currentIndex =
     (if key = ''ArrowLeft''
      then (if currentIndex > 0 then currentIndex - 1 else int (length chapters) - 1)
      else (if currentIndex < int (length chapters) - 1 then currentIndex + 1 else 0))"

definition navigateWithArrowKeys :: "string \<Rightarrow> state \<Rightarrow> state" where
  "navigateWithArrowKeys key s =
     (let currentIndex = indexOf chapters (currentSection s);
          target = chapters ! nat (nextIndex key currentIndex)
      in markNavLink target (navigateToChapter (Some target) s))"

text \<open>The Escape branch of the keydown listener.\<close>

definition escapeKey :: "state \<Rightarrow> state" where
  "escapeKey s = markNavLink ''introduction'' (navigateToChapter (Some ''introduction'') s)"

text \<open>
  The modifier-plus-digit branch of the keydown listener, for the digit \<open>n\<close>: it is taken
  for the keys 1 to 9, and \<^verbatim>\<open>chapters[n - 1]\<close> is then defined.
\<close>

definition quickNav :: "nat \<Rightarrow> state \<Rightarrow> state" where
  "quickNav n s =
     (if 1 \<le> n \<and> n \<le> 9
      then
        let index = n - 1
        in if index < length chapters
           then markNavLink (chapters ! index) (navigateToChapter (Some (chapters ! index)) s)
           else s
      else s)"

text \<open>
  The click listener of the menu entry \<open>link\<close>: \<^verbatim>\<open>getAttribute\<close> gives the attribute or
  \<^verbatim>\<open>null\<close>, and the entry itself is the one marked.
\<close>

definition clickNavLink :: "nat \<Rightarrow> state \<Rightarrow> state" where
  "clickNavLink link s =
     (let chapter = data_chapter (doc s ! link)
      in updateActiveNav link (navigateToChapter chapter s))"

subsection \<open>Search\<close>

fun starts_with :: "string \<Rightarrow> string \<Rightarrow> bool" where
  "starts_with _ [] = True"
| "starts_with [] (_ # _) = False"
| "starts_with (c # cs) (t # ts) = (c = t \<and> starts_with cs ts)"

text \<open>\<^verbatim>\<open>String.prototype.includes\<close>: the term occurs at some position of the text.\<close>

fun str_includes :: "string \<Rightarrow> string \<Rightarrow> bool" where
  "str_includes [] term = (term = [])"
| "str_includes (c # cs) term = (starts_with (c # cs) term \<or> str_includes cs term)"

text \<open>
  \<^verbatim>\<open>highlightText\<close>, with the text of the section taken as one text node. When the node
  contains the term, \<^verbatim>\<open>new RegExp(term, 'gi')\<close> is built: if that throws, the callback ends
  there, with nothing marked and no clean-up scheduled; otherwise the occurrences are
  wrapped in \<^verbatim>\<open>mark\<close> elements. The model keeps which terms are marked; the text node is
  written back through \<^verbatim>\<open>innerHTML\<close>, which adds no element when the text is
  \<open>plain_text\<close>.
\<close>

definition highlightText :: "nat \<Rightarrow> string \<Rightarrow> state \<Rightarrow> state" where
  "highlightText container term s =
     (let e = doc s ! container
      in if str_includes (toLowerCase (host s) (textContent e)) term
         then
           if regexp_ok (host s) term
           then setTimeout (HighlightClear container) 5000
                  (s\<lparr>doc := (doc s)[container := e\<lparr>marks := marks e @ [term]\<rparr>]\<rparr>)
           else s
         else setTimeout (HighlightClear container) 5000 s)"

text \<open>\<^verbatim>\<open>document.querySelectorAll('.content-section')\<close>, as positions in document order.\<close>

definition content_sections :: "element list \<Rightarrow> nat list" where
  "content_sections d = filter (\<lambda>i. content_section (d ! i)) [0..<length d]"

text \<open>
  The body of \<^verbatim>\<open>sections.forEach(section => ...)\<close> in \<^verbatim>\<open>performSearch\<close>, run over the
  remaining sections with the variable \<^verbatim>\<open>found\<close>. The \<^verbatim>\<open>return\<close> that ends the matching
  branch leaves the arrow function only, so the iteration goes on with the next section.
\<close>

fun search_each :: "string \<Rightarrow> nat list \<Rightarrow> bool \<times> state \<Rightarrow> bool \<times> state" where
  "search_each term [] fs = fs"
| "search_each term (i # rest) (found, s) =
     (let section = doc s ! i;
          content = toLowerCase (host s) (textContent section)
      in if str_includes content term
         then
           let sectionId = el_id section;
               s1 = navigateToChapter (Some sectionId) s;
               s2 = markNavLink sectionId s1;
               s3 = setTimeout (SearchHighlight i term) 500 s2
           in search_each term rest (True, s3)
         else search_each term rest (found, s))"

definition performSearch :: "string \<Rightarrow> state \<Rightarrow> state" where
  "performSearch term s =
     (let (found, s1) = search_each term (content_sections (doc s)) (False, s)
      in if \<not> found
         then showNotification (''No results found for '' @ [CHR 0x22] @ term @ [CHR 0x22])
                ''warning'' s1
         else s1)"

text \<open>\<^verbatim>\<open>showSearchDialog\<close>, given what \<^verbatim>\<open>prompt\<close> returned (\<open>None\<close> when it was dismissed).\<close>

definition showSearchDialog :: "string option \<Rightarrow> state \<Rightarrow> state" where
  "showSearchDialog answer s =
     (case answer of
        None \<Rightarrow> s
      | Some searchTerm \<Rightarrow>
          if searchTerm \<noteq> [] \<and> trim (host s) searchTerm \<noteq> []
          then performSearch (toLowerCase (host s) (trim (host s) searchTerm)) s
          else s)"

section \<open>The event loop\<close>

fun run_callback :: "callback \<Rightarrow> state \<Rightarrow> state" where
  "run_callback (NavExit c) s =
     s\<lparr>doc := (doc s)[c := (doc s ! c)\<lparr>active := False, animation := []\<rparr>]\<rparr>"
| "run_callback (NavEnter chapter) s =
     (let s1 = showSection (js_string chapter) s;
          s2 = s1\<lparr>currentSection := chapter\<rparr>;
          s3 = playTransitionSound s2
      in if pushState_supported (host s3)
         then s3\<lparr>location_hash := hash_of (js_string chapter)\<rparr>
         else s3)"
| "run_callback (LinkFeedback l) s =
     s\<lparr>doc := (doc s)[l := (doc s ! l)\<lparr>transform := []\<rparr>]\<rparr>"
| "run_callback (CardIn t k) s =
     (let e = doc s ! t;
          shown = (cards e ! k)\<lparr>transition := ''opacity 0.6s ease, transform 0.6s ease'',
                                 opacity := ''1'', card_transform := ''translateY(0)''\<rparr>
      in s\<lparr>doc := (doc s)[t := e\<lparr>cards := (cards e)[k := shown]\<rparr>]\<rparr>)"
| "run_callback (SearchHighlight i term) s = highlightText i term s"
| "run_callback (HighlightClear i) s =
     s\<lparr>doc := (doc s)[i := (doc s ! i)\<lparr>marks := []\<rparr>]\<rparr>"
| "run_callback (NoteIn k) s =
     s\<lparr>notifications :=
         (notifications s)[k := (notifications s ! k)\<lparr>note_transform := ''translateX(0)''\<rparr>]\<rparr>"
| "run_callback (NoteOut k) s =
     setTimeout (NoteRemove k) 300
       (s\<lparr>notifications :=
           (notifications s)[k := (notifications s ! k)\<lparr>note_transform := ''translateX(350px)''\<rparr>]\<rparr>)"
| "run_callback (NoteRemove k) s =
     s\<lparr>notifications := (notifications s)[k := (notifications s ! k)\<lparr>attached := False\<rparr>]\<rparr>"

text \<open>
  The timer that runs next: the one due first and, among those due at the same time, the
  one created first.
\<close>

definition next_timer :: "timer list \<Rightarrow> nat option" where
  "next_timer ts = first_index (\<lambda>t. list_all (\<lambda>u. due t \<le> due u) ts) ts"

definition fire :: "state \<Rightarrow> state" where
  "fire s =
     (case next_timer (timers s) of
        None \<Rightarrow> s
      | Some k \<Rightarrow>
          let t = timers s ! k
          in run_callback (cb t)
               (s\<lparr>timers := take k (timers s) @ drop (Suc k) (timers s),
                  now := max (now s) (due t)\<rparr>))"

text \<open>
  Running the pending timers until none is left, with a bound on the number of callbacks;
  \<open>None\<close> when the bound is reached with timers still pending.
\<close>

fun run_all :: "nat \<Rightarrow> state \<Rightarrow> state option" where
  "run_all 0 s = (if timers s = [] then Some s else None)"
| "run_all (Suc n) s = (if timers s = [] then Some s else run_all n (fire s))"

text \<open>
  The page after \<^verbatim>\<open>DOMContentLoaded\<close>: the constructor sets \<^verbatim>\<open>currentSection\<close> and shows that
  section, then the fragment of the URL, if it names a menu entry, is navigated to.
\<close>

definition init :: "element list \<Rightarrow> string \<Rightarrow> host \<Rightarrow> nat option \<Rightarrow> state" where
  "init page url_hash h scroll =
     (let s0 = \<lparr>currentSection = Some ''introduction'', doc = page, timers = [], now = 0,
                location_hash = url_hash, loads = 1, host = h, scrollTop = scroll,
                notifications = []\<rparr>;
          s1 = showSection (js_string (currentSection s0)) s0;
          hash = drop 1 url_hash
      in if hash \<noteq> []
         then (case querySelector_data_chapter hash (doc s1) of
                 None \<Rightarrow> s1
               | Some navLink \<Rightarrow> updateActiveNav navLink (navigateToChapter (Some hash) s1))
         else s1)"

text \<open>
  What can happen to the page: a click on a menu entry, a key, an answer to the search
  prompt, the next timer running, or time passing. A timer never runs before it is due.
\<close>

datatype event =
    Click nat
  | ArrowKey string
  | Escape
  | ModDigit nat
  | Search "string option"
  | Fire
  | Wait nat

definition exec1 :: "event \<Rightarrow> state \<Rightarrow> state option" where
  "exec1 ev s =
     (case ev of
        Click link \<Rightarrow>
          if link < length (doc s) \<and> nav_link (doc s ! link)
          then Some (clickNavLink link s) else None
      | ArrowKey key \<Rightarrow>
          if key = ''ArrowLeft'' \<or> key = ''ArrowRight''
          then Some (navigateWithArrowKeys key s) else None
      | Escape \<Rightarrow> Some (escapeKey s)
      | ModDigit n \<Rightarrow> Some (quickNav n s)
      | Search answer \<Rightarrow> Some (showSearchDialog answer s)
      | Fire \<Rightarrow>
          (case next_timer (timers s) of
             None \<Rightarrow> None
           | Some k \<Rightarrow> if due (timers s ! k) \<le> now s then Some (fire s) else None)
      | Wait t \<Rightarrow> if now s \<le> t then Some (s\<lparr>now := t\<rparr>) else None)"

fun exec :: "event list \<Rightarrow> state \<Rightarrow> state option" where
  "exec [] s = Some s"
| "exec (ev # evs) s = (case exec1 ev s of None \<Rightarrow> None | Some s1 \<Rightarrow> exec evs s1)"

section \<open>Sample hosts and pages, and observations\<close>

text \<open>A host whose string functions are those of the engine on ASCII text.\<close>

definition lower_char :: "char \<Rightarrow> char" where
  "lower_char c =
     (let n = (of_char c :: nat) in if 65 \<le> n \<and> n \<le> 90 then char_of (n + 32) else c)"

definition ascii_lower :: "string \<Rightarrow> string" where
  "ascii_lower str = map lower_char str"

definition is_space :: "char \<Rightarrow> bool" where
  "is_space c = ((of_char c :: nat) \<in> {9, 10, 11, 12, 13, 32})"

definition ascii_trim :: "string \<Rightarrow> string" where
  "ascii_trim str = rev (dropWhile is_space (rev (dropWhile is_space str)))"

text \<open>A pattern of letters, digits and spaces only is a regular expression.\<close>

definition literal_pattern :: "string \<Rightarrow> bool" where
  "literal_pattern str =
     list_all (\<lambda>c. let n = (of_char c :: nat)
                   in n = 32 \<or> (48 \<le> n \<and> n \<le> 57) \<or> (65 \<le> n \<and> n \<le> 90) \<or> (97 \<le> n \<and> n \<le> 122))
       str"

definition ascii_host :: host where
  "ascii_host = \<lparr>toLowerCase = ascii_lower, trim = ascii_trim, regexp_ok = literal_pattern,
                  pushState_supported = True\<rparr>"

text \<open>The same host without \<^verbatim>\<open>history.pushState\<close>.\<close>

definition old_host :: host where
  "old_host = ascii_host\<lparr>pushState_supported := False\<rparr>"

definition section_el :: "string \<Rightarrow> string \<Rightarrow> element" where
  "section_el i txt =
     \<lparr>el_id = i, content_section = True, nav_link = False, data_chapter = None,
      active = False, animation = [], transform = [], textContent = txt, cards = [],
      marks = []\<rparr>"

definition link_el :: "string \<Rightarrow> element" where
  "link_el c =
     \<lparr>el_id = [], content_section = False, nav_link = True, data_chapter = Some c,
      active = False, animation = [], transform = [], textContent = c, cards = [],
      marks = []\<rparr>"

text \<open>An element with an id that is neither a section nor a menu entry.\<close>

definition other_el :: "string \<Rightarrow> element" where
  "other_el i =
     \<lparr>el_id = i, content_section = False, nav_link = False, data_chapter = None,
      active = False, animation = [], transform = [], textContent = [], cards = [],
      marks = []\<rparr>"

definition page2 :: "element list" where
  "page2 = [link_el ''introduction'', link_el ''genesis'',
            section_el ''introduction'' ''Hello World'', section_el ''genesis'' ''foo bar'']"

definition page3 :: "element list" where
  "page3 = [link_el ''introduction'', link_el ''genesis'', link_el ''evolution'',
            section_el ''introduction'' ''Hello World'', section_el ''genesis'' ''foo bar'',
            section_el ''evolution'' ''Bar baz'']"

definition page_appendix :: "element list" where
  "page_appendix = [link_el ''introduction'', link_el ''appendix'', link_el ''conclusion'',
            section_el ''introduction'' ''Hello World'', section_el ''appendix'' ''sources'',
            section_el ''conclusion'' ''The end'']"

text \<open>A page with a side bar that has an id.\<close>

definition page_side :: "element list" where
  "page_side = [other_el ''sidebar'', link_el ''introduction'', link_el ''genesis'',
            section_el ''introduction'' ''Hello World'', section_el ''genesis'' ''foo bar'']"

text \<open>A page with a section whose id has a character that a URL does not keep.\<close>

definition page_odd :: "element list" where
  "page_odd = [link_el ''introduction'', link_el ''x<y'',
            section_el ''introduction'' ''Hello World'', section_el ''x<y'' ''foo bar'']"

text \<open>A page with a menu entry and a section for each of the ten chapters.\<close>

definition catalog_page :: "element list" where
  "catalog_page = map link_el chapters @ map (\<lambda>c. section_el c c) chapters"

text \<open>The controller with \<open>c\<close> as its current section, right after \<^verbatim>\<open>showSection\<close> of it.\<close>

definition showing :: "string \<Rightarrow> element list \<Rightarrow> state" where
  "showing c page =
     showSection c
       \<lparr>currentSection = Some c, doc = page, timers = [], now = 0, location_hash = [],
        loads = 1, host = ascii_host, scrollTop = None, notifications = []\<rparr>"

text \<open>The identifiers of the sections marked active, in document order.\<close>

definition active_sections :: "state \<Rightarrow> string list" where
  "active_sections s = map el_id (filter (\<lambda>e. content_section e \<and> active e) (doc s))"

text \<open>The targets of the pending activation callbacks, in order of creation.\<close>

definition entered :: "state \<Rightarrow> string list" where
  "entered s =
     concat (map (\<lambda>u. case cb u of NavEnter c \<Rightarrow> [js_string c] | _ \<Rightarrow> []) (timers s))"

text \<open>A navigation from the introduction to the genesis section, 150 ms after the call.\<close>

definition half_way :: "state option" where
  "half_way =
     exec [Wait 150, Fire] (navigateToChapter (Some ''genesis'') (init page2 [] ascii_host None))"





text \<open>
  A double click on the genesis entry (100 ms between the clicks), a click on the
  introduction entry 100 ms later; then all timers, each when it is due.
\<close>

definition double_click :: "state option" where
  "double_click =
     exec [Click 1, Wait 100, Click 1, Wait 150, Fire, Fire, Wait 200, Click 0,
           Wait 250, Fire, Fire, Wait 300, Fire, Wait 350, Fire, Fire, Wait 400, Fire,
           Wait 500, Fire]
       (init page2 [] ascii_host None)"

text \<open>A navigation to the id of the side bar, and then all timers.\<close>

definition side_trip :: "state option" where
  "side_trip =
     run_all 10 (navigateToChapter (Some ''sidebar'') (init page_side [] ascii_host None))"

text \<open>A navigation to genesis on a host without \<^verbatim>\<open>history.pushState\<close>, and then all timers.\<close>

definition unpushed :: "state option" where
  "unpushed =
     run_all 10 (navigateToChapter (Some ''genesis'') (init page2 [] old_host None))"

text \<open>A navigation to the section with the odd id, and then all timers.\<close>

definition odd_trip :: "state option" where
  "odd_trip =
     run_all 10 (navigateToChapter (Some ''x<y'') (init page_odd [] ascii_host None))"

text \<open>A search for a term with a tag in it, which no section contains.\<close>

definition tag_search :: state where
  "tag_search = performSearch ''<b>x'' (init page2 [] ascii_host None)"

section \<open>Notions used in the properties\<close>

text \<open>What the script never changes in an element.\<close>

definition static :: "element \<Rightarrow> string \<times> bool \<times> bool \<times> string option \<times> nat" where
  "static e = (el_id e, content_section e, nav_link e, data_chapter e, length (cards e))"

text \<open>
  The second page has the elements of the first, and each section active in it was active
  in the first.
\<close>

definition shrinks :: "element list \<Rightarrow> element list \<Rightarrow> bool" where
  "shrinks d d' \<longleftrightarrow>
     map static d' = map static d \<and>
     (\<forall>k<length d. content_section (d' ! k) \<and> active (d' ! k) \<longrightarrow> active (d ! k))"

definition quiet :: "state \<Rightarrow> state \<Rightarrow> bool" where
  "quiet s s' \<longleftrightarrow> currentSection s' = currentSection s \<and> shrinks (doc s) (doc s')"

text \<open>No content section doubles as a menu entry: it has neither the class nor the attribute.\<close>

definition menu_apart :: "element list \<Rightarrow> bool" where
  "menu_apart d \<longleftrightarrow>
     (\<forall>e\<in>set d. content_section e \<longrightarrow> data_chapter e = None \<and> \<not> nav_link e)"

text \<open>
  The sections of the page have ids that stand for themselves in a selector and texts that
  are their own markup.
\<close>

definition plain_page :: "element list \<Rightarrow> bool" where
  "plain_page d \<longleftrightarrow>
     (\<forall>e\<in>set d. content_section e \<longrightarrow> selector_safe (el_id e) \<and> plain_text (textContent e))"

text \<open>The term a search prompt answer leads to, if any, is its own markup.\<close>

definition plain_event :: "host \<Rightarrow> event \<Rightarrow> bool" where
  "plain_event h ev =
     (case ev of
        Search (Some answer) \<Rightarrow> plain_text (toLowerCase h (trim h answer))
      | _ \<Rightarrow> True)"

text \<open>Every section marked active is the element that \<^verbatim>\<open>currentSection\<close> names.\<close>

definition shown_is_current :: "state \<Rightarrow> bool" where
  "shown_is_current s \<longleftrightarrow>
     (\<forall>k<length (doc s). content_section (doc s ! k) \<and> active (doc s ! k) \<longrightarrow>
        getElementById (js_string (currentSection s)) (doc s) = Some k)"

text \<open>The element \<open>t\<close> is marked active and no section other than \<open>t\<close> is.\<close>

definition sole_active :: "nat \<Rightarrow> element list \<Rightarrow> bool" where
  "sole_active t d \<longleftrightarrow>
     t < length d \<and> active (d ! t) \<and>
     (\<forall>k<length d. content_section (d ! k) \<and> active (d ! k) \<longrightarrow> k = t)"

fun is_enter :: "callback \<Rightarrow> bool" where
  "is_enter (NavEnter _) = True"
| "is_enter _ = False"

fun is_exit :: "callback \<Rightarrow> bool" where
  "is_exit (NavExit _) = True"
| "is_exit _ = False"


text \<open>At most how many timers a callback creates when it runs.\<close>

fun spawned :: "element list \<Rightarrow> callback \<Rightarrow> nat" where
  "spawned d (NavEnter X) =
     (case getElementById (js_string X) d of None \<Rightarrow> 0 | Some t \<Rightarrow> length (cards (d ! t)))"
| "spawned d (NoteOut k) = 1"
| "spawned d (SearchHighlight i term) = 1"
| "spawned d _ = 0"

text \<open>A bound on the number of callbacks that will have run when the queue is empty.\<close>

definition weight :: "state \<Rightarrow> nat" where
  "weight s = sum_list (map (\<lambda>u. Suc (spawned (doc s) (cb u))) (timers s))"

text \<open>The pending callbacks that satisfy \<open>G\<close> are due at \<open>L\<close> or before.\<close>

definition due_by :: "(callback \<Rightarrow> bool) \<Rightarrow> nat \<Rightarrow> state \<Rightarrow> bool" where
  "due_by G L s \<longleftrightarrow> (\<forall>u\<in>set (timers s). G (cb u) \<longrightarrow> due u \<le> L)"

text \<open>
  Among the pending callbacks that satisfy \<open>G\<close>, those created so far are due within 150 ms:
  none of them was created by a call later than the present one would be.
\<close>

definition timely :: "(callback \<Rightarrow> bool) \<Rightarrow> state \<Rightarrow> bool" where
  "timely G s \<longleftrightarrow> (\<forall>u\<in>set (timers s). G (cb u) \<longrightarrow> due u \<le> now s + 150)"

text \<open>
  The activation of \<open>X\<close> is pending and will be the last callback satisfying \<open>G\<close> to run:
  every other one was created before it and is due no later.
\<close>

definition pending :: "(callback \<Rightarrow> bool) \<Rightarrow> string option \<Rightarrow> state \<Rightarrow> bool" where
  "pending G X s \<longleftrightarrow>
     (\<exists>pre post dX.
        timers s = pre @ \<lparr>due = dX, cb = NavEnter X\<rparr> # post \<and>
        (\<forall>u\<in>set post. \<not> G (cb u)) \<and>
        (\<forall>u\<in>set pre. G (cb u) \<longrightarrow> due u \<le> dX))"

text \<open>
  \<open>X\<close> is current, the fragment is written if the host allows, and no pending callback
  satisfies \<open>G\<close>.
\<close>

definition settled :: "(callback \<Rightarrow> bool) \<Rightarrow> string option \<Rightarrow> state \<Rightarrow> bool" where
  "settled G X s \<longleftrightarrow>
     (\<forall>u\<in>set (timers s). \<not> G (cb u)) \<and>
     currentSection s = X \<and>
     (pushState_supported (host s) \<longrightarrow> location_hash s = hash_of (js_string X))"

text \<open>What holds of every page the user can reach.\<close>

definition page_inv :: "state \<Rightarrow> bool" where
  "page_inv s \<longleftrightarrow> menu_apart (doc s) \<and> shown_is_current s"

text \<open>What \<^verbatim>\<open>showSection\<close> does first: every content section loses its active mark.\<close>

definition hide_sections :: "element list \<Rightarrow> element list" where
  "hide_sections d = map (\<lambda>e. if content_section e then e\<lparr>active := False\<rparr> else e) d"

section \<open>Basic facts\<close>

lemmas model_defs = init_def showSection_def animateSection_def getElementById_def
  querySelector_data_chapter_def navigateToChapter_def updateActiveNav_def markNavLink_def
  setTimeout_def exec1_def clickNavLink_def fire_def next_timer_def playTransitionSound_def
  js_string_def Let_def

lemmas sample_defs = section_el_def link_el_def other_el_def ascii_host_def

lemma first_index_None: "first_index P xs = None \<longleftrightarrow> (\<forall>x\<in>set xs. \<not> P x)"
  by (induction xs) auto

lemma first_index_map: "first_index P (map f xs) = first_index (\<lambda>x. P (f x)) xs"
  by (induction xs) auto

lemma first_index_SomeD:
  "first_index P xs = Some k \<Longrightarrow> k < length xs \<and> P (xs ! k) \<and> (\<forall>j<k. \<not> P (xs ! j))"
proof (induction xs arbitrary: k)
  case Nil
  then show ?case by simp
next
  case (Cons x xs)
  show ?case
  proof (cases "P x")
    case True
    with Cons.prems show ?thesis by simp
  next
    case False
    with Cons.prems obtain m where m: "first_index P xs = Some m" "k = Suc m"
      by auto
    from Cons.IH [OF m(1)] False m(2) show ?thesis
      by (auto simp: nth_Cons split: nat.splits)
  qed
qed

lemma getElementById_ids:
  "getElementById i d = (if i = [] then None else first_index (\<lambda>x. x = i) (map el_id d))"
  by (simp add: getElementById_def first_index_map)

lemma getElementById_cong:
  "map el_id d' = map el_id d \<Longrightarrow> getElementById i d' = getElementById i d"
  by (simp add: getElementById_ids)

lemma getElementById_SomeD:
  "getElementById i d = Some k \<Longrightarrow> k < length d \<and> el_id (d ! k) = i \<and> i \<noteq> []"
  by (auto simp: getElementById_def dest: first_index_SomeD split: if_splits)

lemma map_update_same: "f y = f (xs ! k) \<Longrightarrow> map f (xs[k := y]) = map f xs"
  by (cases "k < length xs") (simp_all add: map_update list_update_same_conv list_update_beyond)

section \<open>Early returns of navigateToChapter\<close>

text \<open>
  C6. Navigating to the section that is already current returns at once: the state after
  the call is the state before it, so nothing on the page changes, the fragment is not
  rewritten and no timer is added.
\<close>

theorem navigate_current_noop:
  "navigateToChapter (currentSection s) s = s"
  by (simp add: navigateToChapter_def)

text \<open>
  C7, as stated, fails: the test is \<^verbatim>\<open>getElementById\<close>, which finds any element. On a page
  whose side bar has the id \<^verbatim>\<open>sidebar\<close>, no section has that id, yet the navigation to it
  is scheduled, and when the timers have run \<^verbatim>\<open>currentSection\<close> is \<^verbatim>\<open>sidebar\<close> and no
  section is marked active.
\<close>

theorem not_a_section_counterexample:
  "filter (\<lambda>e. content_section e \<and> el_id e = ''sidebar'') page_side = []
   \<and> entered (navigateToChapter (Some ''sidebar'') (init page_side [] ascii_host None))
       = [''sidebar'']
   \<and> map_option currentSection side_trip = Some (Some ''sidebar'')
   \<and> map_option active_sections side_trip = Some []"
  by code_simp

text \<open>
  C7, amended. When no element of the page carries the identifier, \<^verbatim>\<open>getElementById\<close>
  finds nothing and the call returns the state it was given: \<^verbatim>\<open>currentSection\<close>, every
  element's marks and the timer queue are what they were. The method has no failing
  branch.
\<close>

theorem navigate_unknown_noop:
  "getElementById (js_string chapter) (doc s) = None \<Longrightarrow> navigateToChapter chapter s = s"
  by (simp add: navigateToChapter_def)

theorem navigate_unknown_noop_witness:
  "getElementById (js_string (Some ''nonexistent'')) (doc (init page2 [] ascii_host None)) = None
   \<and> navigateToChapter (Some ''nonexistent'') (init page2 [] ascii_host None)
       = init page2 [] ascii_host None"
proof -
  have h: "getElementById (js_string (Some ''nonexistent'')) (doc (init page2 [] ascii_host None))
             = None"
    by (simp add: model_defs sample_defs page2_def)
  from navigate_unknown_noop [OF h] h show ?thesis by simp
qed

section \<open>Arrow keys\<close>

lemma indexOf_first: "indexOf chapters (Some ''introduction'') = 0"
  by (simp add: indexOf_def chapters_def)

lemma indexOf_last: "indexOf chapters (Some ''conclusion'') = 9"
  by (simp add: indexOf_def chapters_def)

lemma indexOf_absent: "x \<notin> Some ` set xs \<Longrightarrow> indexOf xs x = - 1"
proof -
  assume "x \<notin> Some ` set xs"
  then have "first_index (\<lambda>y. Some y = x) xs = None"
    by (auto simp: first_index_None)
  then show ?thesis by (simp add: indexOf_def)
qed

lemma indexOf_range: "- 1 \<le> indexOf xs x \<and> indexOf xs x < int (length xs)"
  by (auto simp: indexOf_def dest: first_index_SomeD split: option.splits)

lemma chapters_first: "chapters ! 0 = ''introduction''"
  by (simp add: chapters_def)

lemma chapters_last: "chapters ! 9 = ''conclusion''"
  by (simp add: chapters_def)

lemma length_chapters: "length chapters = 10"
  by (simp add: chapters_def)

text \<open>The index handed to \<^verbatim>\<open>chapters[nextIndex]\<close> is always inside the catalog.\<close>

lemma nextIndex_in_range:
  "0 \<le> nextIndex key (indexOf chapters x)
   \<and> nextIndex key (indexOf chapters x) < int (length chapters)"
  using indexOf_range [of chapters x] by (simp add: nextIndex_def length_chapters)

text \<open>
  C8. With the first catalog entry current, ArrowLeft navigates to the last entry; with
  the last entry current, ArrowRight navigates to the first.
\<close>

theorem arrow_keys_wrap:
  "(currentSection s = Some ''introduction'' \<longrightarrow>
      navigateWithArrowKeys ''ArrowLeft'' s
        = markNavLink ''conclusion'' (navigateToChapter (Some ''conclusion'') s))
   \<and> (currentSection s = Some ''conclusion'' \<longrightarrow>
      navigateWithArrowKeys ''ArrowRight'' s
        = markNavLink ''introduction'' (navigateToChapter (Some ''introduction'') s))"
  by (simp add: navigateWithArrowKeys_def nextIndex_def indexOf_first indexOf_last
      length_chapters chapters_first chapters_last Let_def)

theorem arrow_keys_wrap_witness:
  "currentSection (showing ''introduction'' catalog_page) = Some ''introduction''
   \<and> navigateWithArrowKeys ''ArrowLeft'' (showing ''introduction'' catalog_page)
       = markNavLink ''conclusion''
           (navigateToChapter (Some ''conclusion'') (showing ''introduction'' catalog_page))
   \<and> entered (navigateWithArrowKeys ''ArrowLeft'' (showing ''introduction'' catalog_page))
       = [''conclusion'']
   \<and> currentSection (showing ''conclusion'' catalog_page) = Some ''conclusion''
   \<and> navigateWithArrowKeys ''ArrowRight'' (showing ''conclusion'' catalog_page)
       = markNavLink ''introduction''
           (navigateToChapter (Some ''introduction'') (showing ''conclusion'' catalog_page))
   \<and> entered (navigateWithArrowKeys ''ArrowRight'' (showing ''conclusion'' catalog_page))
       = [''introduction'']"
proof -
  have a: "currentSection (showing ''introduction'' catalog_page) = Some ''introduction''"
    and b: "currentSection (showing ''conclusion'' catalog_page) = Some ''conclusion''"
    and c: "entered (navigateWithArrowKeys ''ArrowLeft'' (showing ''introduction'' catalog_page))
              = [''conclusion'']"
    and d: "entered (navigateWithArrowKeys ''ArrowRight'' (showing ''conclusion'' catalog_page))
              = [''introduction'']"
    by code_simp+
  from arrow_keys_wrap [of "showing ''introduction'' catalog_page"] a
       arrow_keys_wrap [of "showing ''conclusion'' catalog_page"] b c d
  show ?thesis by blast
qed

text \<open>
  C10. When the current section is not one of the ten catalog entries, \<^verbatim>\<open>indexOf\<close>
  gives -1; ArrowLeft then navigates to \<^verbatim>\<open>conclusion\<close> and ArrowRight to \<^verbatim>\<open>introduction\<close>.
\<close>

theorem arrow_keys_outside_catalog:
  "currentSection s \<notin> Some ` set chapters \<Longrightarrow>
     indexOf chapters (currentSection s) = - 1
     \<and> navigateWithArrowKeys ''ArrowLeft'' s
         = markNavLink ''conclusion'' (navigateToChapter (Some ''conclusion'') s)
     \<and> navigateWithArrowKeys ''ArrowRight'' s
         = markNavLink ''introduction'' (navigateToChapter (Some ''introduction'') s)"
  by (simp add: navigateWithArrowKeys_def nextIndex_def indexOf_absent
      length_chapters chapters_first chapters_last Let_def)

text \<open>A click on a menu entry for a section outside the catalog makes that section current.\<close>

lemma click_outside_catalog:
  "map_option currentSection
     (exec [Click 1, Wait 150, Fire, Fire, Wait 300, Fire] (init page_appendix [] ascii_host None))
   = Some (Some ''appendix'')"
  by code_simp

theorem arrow_keys_outside_catalog_witness:
  "currentSection (showing ''appendix'' page_appendix) \<notin> Some ` set chapters
   \<and> navigateWithArrowKeys ''ArrowLeft'' (showing ''appendix'' page_appendix)
       = markNavLink ''conclusion''
           (navigateToChapter (Some ''conclusion'') (showing ''appendix'' page_appendix))
   \<and> navigateWithArrowKeys ''ArrowRight'' (showing ''appendix'' page_appendix)
       = markNavLink ''introduction''
           (navigateToChapter (Some ''introduction'') (showing ''appendix'' page_appendix))
   \<and> entered (navigateWithArrowKeys ''ArrowLeft'' (showing ''appendix'' page_appendix))
       = [''conclusion'']
   \<and> entered (navigateWithArrowKeys ''ArrowRight'' (showing ''appendix'' page_appendix))
       = [''introduction'']"
proof -
  have h: "currentSection (showing ''appendix'' page_appendix) \<notin> Some ` set chapters"
    by (simp add: showing_def model_defs sample_defs page_appendix_def chapters_def image_iff)
  have c: "entered (navigateWithArrowKeys ''ArrowLeft'' (showing ''appendix'' page_appendix))
              = [''conclusion'']"
    and d: "entered (navigateWithArrowKeys ''ArrowRight'' (showing ''appendix'' page_appendix))
              = [''introduction'']"
    by code_simp+
  from arrow_keys_outside_catalog [OF h] h c d show ?thesis by simp
qed

section \<open>Search\<close>

lemma search_each_no_match:
  "\<forall>i\<in>set rest. \<not> str_includes (toLowerCase (host s) (textContent (doc s ! i))) term \<Longrightarrow>
   search_each term rest (found, s) = (found, s)"
  by (induction rest) (simp_all add: Let_def)

lemma html_text_plain_from:
  "plain_text str \<Longrightarrow> html_text_from False str = str"
  by (induction str) (auto simp: plain_text_def)

lemma html_text_plain: "plain_text str \<Longrightarrow> html_text str = str"
  by (simp add: html_text_def html_text_plain_from)

lemma plain_text_append: "plain_text (a @ b) \<longleftrightarrow> plain_text a \<and> plain_text b"
  by (auto simp: plain_text_def)

lemma starts_with_append: "starts_with (t @ b) t"
  by (induction t) simp_all

lemma str_includes_suffix: "starts_with r t \<Longrightarrow> str_includes (a @ r) t"
proof (induction a)
  case Nil
  then show ?case by (cases r) (auto elim: starts_with.elims)
next
  case (Cons c a)
  then show ?case by simp
qed

lemma str_includes_middle: "str_includes (a @ t @ b) t"
  by (rule str_includes_suffix) (rule starts_with_append)

text \<open>
  C9, as stated, fails for a term with markup in it: the message is read as markup, so
  for the term \<^verbatim>\<open><b>x\<close>, which no section contains, the text of the notification is
  \<^verbatim>\<open>No results found for "x"\<close> and does not contain the term.
\<close>

theorem markup_term_counterexample:
  "map (\<lambda>i. str_includes (toLowerCase ascii_host (textContent (doc (init page2 [] ascii_host None) ! i)))
              ''<b>x'')
     (content_sections (doc (init page2 [] ascii_host None))) = [False, False]
   \<and> map message (notifications tag_search)
       = [''No results found for '' @ [CHR 0x22] @ ''<b>x'' @ [CHR 0x22]]
   \<and> map (\<lambda>n. html_text (message n)) (notifications tag_search)
       = [''No results found for '' @ [CHR 0x22] @ ''x'' @ [CHR 0x22]]
   \<and> map (\<lambda>n. str_includes (html_text (message n)) ''<b>x'') (notifications tag_search)
       = [False]"
  by code_simp

text \<open>
  C9, amended. When no section's lower-cased text contains the term and the term has no
  markup in it, the search appends one notification of severity \<^verbatim>\<open>warning\<close> whose message
  is \<^verbatim>\<open>No results found for\<close> followed by the quoted term; that message is its own text
  and contains the term. The two timers that slide the notification in and out are
  added; the current section, the page and the fragment stay as they were, and no
  navigation timer is added.
\<close>

theorem search_no_match:
  assumes "\<forall>i\<in>set (content_sections (doc s)).
             \<not> str_includes (toLowerCase (host s) (textContent (doc s ! i))) term"
    and "plain_text term"
  shows "currentSection (performSearch term s) = currentSection s
     \<and> doc (performSearch term s) = doc s
     \<and> location_hash (performSearch term s) = location_hash s
     \<and> timers (performSearch term s) =
         timers s @ [\<lparr>due = now s + 10, cb = NoteIn (length (notifications s))\<rparr>,
                     \<lparr>due = now s + 3000, cb = NoteOut (length (notifications s))\<rparr>]
     \<and> notifications (performSearch term s) =
         notifications s @
           [\<lparr>message = ''No results found for '' @ [CHR 0x22] @ term @ [CHR 0x22],
             severity = ''warning'', note_transform = ''translateX(350px)'', attached = True\<rparr>]
     \<and> html_text (''No results found for '' @ [CHR 0x22] @ term @ [CHR 0x22])
         = ''No results found for '' @ [CHR 0x22] @ term @ [CHR 0x22]
     \<and> str_includes (''No results found for '' @ [CHR 0x22] @ term @ [CHR 0x22]) term"
proof -
  have "plain_text (''No results found for '' @ [CHR 0x22] @ term @ [CHR 0x22])"
    using assms(2) by (simp add: plain_text_append plain_text_def)
  then have a: "html_text (''No results found for '' @ [CHR 0x22] @ term @ [CHR 0x22])
         = ''No results found for '' @ [CHR 0x22] @ term @ [CHR 0x22]"
    by (rule html_text_plain)
  have b: "str_includes (''No results found for '' @ [CHR 0x22] @ term @ [CHR 0x22]) term"
    using str_includes_middle [of "''No results found for '' @ [CHR 0x22]" "term" "[CHR 0x22]"]
    by simp
  from search_each_no_match [OF assms(1), of False] a b show ?thesis
    by (simp add: performSearch_def showNotification_def setTimeout_def Let_def)
qed

theorem search_no_match_witness:
  "content_sections (doc (init page2 [] ascii_host None)) = [2, 3]
   \<and> \<not> str_includes (toLowerCase (host (init page2 [] ascii_host None))
                        (textContent (doc (init page2 [] ascii_host None) ! 2))) ''zzz''
   \<and> \<not> str_includes (toLowerCase (host (init page2 [] ascii_host None))
                        (textContent (doc (init page2 [] ascii_host None) ! 3))) ''zzz''
   \<and> plain_text ''zzz''
   \<and> currentSection (performSearch ''zzz'' (init page2 [] ascii_host None)) = Some ''introduction''
   \<and> map message (notifications (performSearch ''zzz'' (init page2 [] ascii_host None)))
       = [''No results found for '' @ [CHR 0x22] @ ''zzz'' @ [CHR 0x22]]"
proof -
  have s: "content_sections (doc (init page2 [] ascii_host None)) = [2, 3]"
    and n2: "\<not> str_includes (toLowerCase (host (init page2 [] ascii_host None))
                        (textContent (doc (init page2 [] ascii_host None) ! 2))) ''zzz''"
    and n3: "\<not> str_includes (toLowerCase (host (init page2 [] ascii_host None))
                        (textContent (doc (init page2 [] ascii_host None) ! 3))) ''zzz''"
    and p: "plain_text ''zzz''"
    by code_simp+
  from s n2 n3
  have h: "\<forall>i\<in>set (content_sections (doc (init page2 [] ascii_host None))).
       \<not> str_includes (toLowerCase (host (init page2 [] ascii_host None))
              (textContent (doc (init page2 [] ascii_host None) ! i))) ''zzz''"
    by simp
  have c: "currentSection (init page2 [] ascii_host None) = Some ''introduction''"
    and n: "notifications (init page2 [] ascii_host None) = []"
    by (simp_all add: model_defs sample_defs page2_def)
  from search_no_match [OF h p] s n2 n3 p c n show ?thesis by simp
qed

text \<open>
  C2. On a page whose second and third sections both contain the term, the search issues
  a navigation for each of them, and the section shown in the end is the third one, not
  the first match.
\<close>

theorem search_visits_every_match:
  "entered (performSearch ''bar'' (init page3 [] ascii_host None)) = [''genesis'', ''evolution'']
   \<and> map_option currentSection (run_all 12 (performSearch ''bar'' (init page3 [] ascii_host None)))
       = Some (Some ''evolution'')"
  by code_simp

section \<open>Pages keep their elements\<close>
lemma static_el_id: "map static d' = map static d \<Longrightarrow> map el_id d' = map el_id d"
proof -
  assume a: "map static d' = map static d"
  have "map el_id d' = map fst (map static d')" by (simp add: static_def)
  also have "\<dots> = map fst (map static d)" using a by simp
  also have "\<dots> = map el_id d" by (simp add: static_def)
  finally show ?thesis .
qed

lemma static_length: "map static d' = map static d \<Longrightarrow> length d' = length d"
  by (rule map_eq_imp_length_eq)

lemma static_nth:
  "map static d' = map static d \<Longrightarrow> k < length d \<Longrightarrow> static (d' ! k) = static (d ! k)"
proof -
  assume a: "map static d' = map static d" and k: "k < length d"
  from a have l: "length d' = length d" by (rule static_length)
  from a have "map static d' ! k = map static d ! k" by simp
  with k l show ?thesis by simp
qed

lemma static_getElementById:
  "map static d' = map static d \<Longrightarrow> getElementById i d' = getElementById i d"
  by (rule getElementById_cong) (rule static_el_id)

lemma static_spawned: "map static d' = map static d \<Longrightarrow> spawned d' c = spawned d c"
proof (cases c)
  case (NavEnter X)
  assume a: "map static d' = map static d"
  have g: "getElementById (js_string X) d' = getElementById (js_string X) d"
    by (rule static_getElementById [OF a])
  show ?thesis
  proof (cases "getElementById (js_string X) d")
    case None
    with g NavEnter show ?thesis by simp
  next
    case (Some t)
    then have "t < length d" by (simp add: getElementById_SomeD)
    from static_nth [OF a this] have "length (cards (d' ! t)) = length (cards (d ! t))"
      by (simp add: static_def)
    with g NavEnter Some show ?thesis by simp
  qed
qed simp_all

lemma static_update: "static y = static (d ! k) \<Longrightarrow> map static (d[k := y]) = map static d"
  by (rule map_update_same)

lemma static_animateSection: "map static (doc (animateSection t s)) = map static (doc s)"
proof -
  have "static ((doc s ! t)\<lparr>cards := map (\<lambda>c. c\<lparr>opacity := ''0'', card_transform := ''translateY(30px)''\<rparr>) (cards (doc s ! t))\<rparr>)
        = static (doc s ! t)"
    by (simp add: static_def)
  then show ?thesis
    by (simp add: animateSection_def Let_def static_update)
qed

lemma static_hide_sections: "map static (hide_sections d) = map static d"
proof -
  have "static (if content_section e then e\<lparr>active := False\<rparr> else e) = static e" for e
    by (simp add: static_def)
  then show ?thesis by (simp add: hide_sections_def)
qed

lemma getElementById_hide_sections: "getElementById X (hide_sections d) = getElementById X d"
  by (rule static_getElementById) (rule static_hide_sections)

lemma showSection_None:
  "getElementById X (doc s) = None \<Longrightarrow> showSection X s = s\<lparr>doc := hide_sections (doc s)\<rparr>"
  using getElementById_hide_sections [of X "doc s"]
  by (simp add: showSection_def hide_sections_def)

lemma showSection_Some:
  "getElementById X (doc s) = Some t \<Longrightarrow>
   showSection X s =
     animateSection t
       (s\<lparr>doc := (hide_sections (doc s))[t := (hide_sections (doc s) ! t)\<lparr>active := True\<rparr>],
          scrollTop := map_option (\<lambda>_. 0) (scrollTop s)\<rparr>)"
  using getElementById_hide_sections [of X "doc s"]
  by (simp add: showSection_def hide_sections_def Let_def)

lemma static_showSection: "map static (doc (showSection X s)) = map static (doc s)"
proof (cases "getElementById X (doc s)")
  case None
  then show ?thesis by (simp add: showSection_None static_hide_sections)
next
  case (Some t)
  have "map static ((hide_sections (doc s))[t := (hide_sections (doc s) ! t)\<lparr>active := True\<rparr>])
        = map static (hide_sections (doc s))"
    by (rule static_update) (simp add: static_def)
  with Some show ?thesis
    by (simp add: showSection_Some static_animateSection static_hide_sections)
qed

lemma hide_sections_length: "length (hide_sections d) = length d"
  by (simp add: hide_sections_def)

lemma hide_sections_nth:
  "k < length d \<Longrightarrow>
   hide_sections d ! k = (if content_section (d ! k) then (d ! k)\<lparr>active := False\<rparr> else d ! k)"
  by (simp add: hide_sections_def)

lemma doc_showSection_Some:
  "getElementById X (doc s) = Some t \<Longrightarrow>
   doc (showSection X s) =
     (hide_sections (doc s))
       [t := (hide_sections (doc s) ! t)
               \<lparr>active := True,
                cards := map (\<lambda>c. c\<lparr>opacity := ''0'', card_transform := ''translateY(30px)''\<rparr>)
                           (cards (doc s ! t))\<rparr>]"
proof -
  assume g: "getElementById X (doc s) = Some t"
  then have t: "t < length (doc s)" by (simp add: getElementById_SomeD)
  then have c: "cards (hide_sections (doc s) ! t) = cards (doc s ! t)"
    by (simp add: hide_sections_nth)
  from t c show ?thesis
    by (simp add: showSection_Some [OF g] animateSection_def Let_def hide_sections_length)
qed

lemma timers_showSection_Some:
  "getElementById X (doc s) = Some t \<Longrightarrow>
   timers (showSection X s) =
     timers s @ map (\<lambda>k. \<lparr>due = now s + k * 100, cb = CardIn t k\<rparr>)
                    [0..<length (cards (doc s ! t))]"
proof -
  assume g: "getElementById X (doc s) = Some t"
  then have t: "t < length (doc s)" by (simp add: getElementById_SomeD)
  then have c: "cards (hide_sections (doc s) ! t) = cards (doc s ! t)"
    by (simp add: hide_sections_nth)
  from t c show ?thesis
    by (simp add: showSection_Some [OF g] animateSection_def Let_def hide_sections_length)
qed

lemma showSection_fields:
  "currentSection (showSection X s) = currentSection s"
  "now (showSection X s) = now s"
  "location_hash (showSection X s) = location_hash s"
  "host (showSection X s) = host s"
  "loads (showSection X s) = loads s"
  "notifications (showSection X s) = notifications s"
  by (cases "getElementById X (doc s)";
      simp add: showSection_None showSection_Some animateSection_def Let_def)+

lemma sole_active_showSection:
  assumes g: "getElementById X (doc s) = Some t"
  shows "sole_active t (doc (showSection X s))"
proof -
  from g have t: "t < length (doc s)" by (simp add: getElementById_SomeD)
  have "k = t" if k: "k < length (doc s)"
    and a: "content_section (doc (showSection X s) ! k) \<and> active (doc (showSection X s) ! k)" for k
  proof (rule ccontr)
    assume "k \<noteq> t"
    with k have "doc (showSection X s) ! k = hide_sections (doc s) ! k"
      by (simp add: doc_showSection_Some [OF g])
    with a k show False by (simp add: hide_sections_nth split: if_splits)
  qed
  with t show ?thesis
    by (simp add: sole_active_def doc_showSection_Some [OF g] hide_sections_length)
qed

lemma timers_showSection_None:
  "getElementById X (doc s) = None \<Longrightarrow> timers (showSection X s) = timers s"
  by (simp add: showSection_None)

lemma setTimeout_fields [simp]:
  "doc (setTimeout f n s) = doc s"
  "currentSection (setTimeout f n s) = currentSection s"
  "timers (setTimeout f n s) = timers s @ [\<lparr>due = now s + n, cb = f\<rparr>]"
  "now (setTimeout f n s) = now s"
  "location_hash (setTimeout f n s) = location_hash s"
  "host (setTimeout f n s) = host s"
  "loads (setTimeout f n s) = loads s"
  "notifications (setTimeout f n s) = notifications s"
  by (simp_all add: setTimeout_def)


lemma shrinks_refl: "shrinks d d"
  by (simp add: shrinks_def)

lemma shrinks_trans:
  assumes ab: "shrinks a b" and bc: "shrinks b c"
  shows "shrinks a c"
proof -
  from ab have sab: "map static b = map static a" by (simp add: shrinks_def)
  from bc have sbc: "map static c = map static b" by (simp add: shrinks_def)
  have l: "length b = length a" by (rule static_length [OF sab])
  have "active (a ! k)" if k: "k < length a" and h: "content_section (c ! k) \<and> active (c ! k)" for k
  proof -
    from k l have kb: "k < length b" by simp
    from static_nth [OF sbc kb] have "content_section (b ! k) = content_section (c ! k)"
      by (simp add: static_def)
    moreover from bc kb h have "active (b ! k)" by (simp add: shrinks_def)
    ultimately show ?thesis using ab k h by (simp add: shrinks_def)
  qed
  with sab sbc show ?thesis by (simp add: shrinks_def)
qed

lemma shrinks_update:
  assumes st: "static y = static (d ! k)" and ac: "content_section y \<and> active y \<longrightarrow> active (d ! k)"
  shows "shrinks d (d[k := y])"
proof -
  have "active (d ! j)" if j: "j < length d"
    and h: "content_section (d[k := y] ! j) \<and> active (d[k := y] ! j)" for j
  proof (cases "j = k")
    case True
    with j h ac show ?thesis by simp
  next
    case False
    with h show ?thesis by simp
  qed
  with static_update [OF st] show ?thesis by (simp add: shrinks_def)
qed

lemma quiet_refl: "quiet s s"
  by (simp add: quiet_def shrinks_refl)

lemma quiet_trans: "quiet a b \<Longrightarrow> quiet b c \<Longrightarrow> quiet a c"
  by (auto simp: quiet_def intro: shrinks_trans)

lemma quiet_setTimeout: "quiet s (setTimeout f n s)"
  by (simp add: quiet_def shrinks_refl)

lemma quiet_doc:
  "currentSection s' = currentSection s \<Longrightarrow> shrinks (doc s) (doc s') \<Longrightarrow> quiet s s'"
  by (simp add: quiet_def)

lemma quiet_highlightText: "quiet s (highlightText i term s)"
proof -
  have "shrinks (doc s) ((doc s)[i := (doc s ! i)\<lparr>marks := marks (doc s ! i) @ [term]\<rparr>])"
    by (rule shrinks_update) (simp_all add: static_def)
  then show ?thesis
    by (simp add: highlightText_def Let_def quiet_def shrinks_refl)
qed

lemma quiet_run_callback: "\<not> is_enter c \<Longrightarrow> quiet s (run_callback c s)"
proof (cases c)
  case (NavExit k)
  have "shrinks (doc s) ((doc s)[k := (doc s ! k)\<lparr>active := False, animation := []\<rparr>])"
    by (rule shrinks_update) (simp_all add: static_def)
  with NavExit show ?thesis by (simp add: quiet_def)
next
  case (LinkFeedback l)
  have "shrinks (doc s) ((doc s)[l := (doc s ! l)\<lparr>transform := []\<rparr>])"
    by (rule shrinks_update) (simp_all add: static_def)
  with LinkFeedback show ?thesis by (simp add: quiet_def)
next
  case (CardIn t k)
  have "shrinks (doc s) ((doc s)[t := (doc s ! t)\<lparr>cards := (cards (doc s ! t))
          [k := (cards (doc s ! t) ! k)\<lparr>transition := ''opacity 0.6s ease, transform 0.6s ease'',
                 opacity := ''1'', card_transform := ''translateY(0)''\<rparr>]\<rparr>])"
    by (rule shrinks_update) (simp_all add: static_def)
  with CardIn show ?thesis by (simp add: quiet_def Let_def)
next
  case (SearchHighlight i q)
  then show ?thesis by (simp add: quiet_highlightText)
next
  case (HighlightClear i)
  have "shrinks (doc s) ((doc s)[i := (doc s ! i)\<lparr>marks := []\<rparr>])"
    by (rule shrinks_update) (simp_all add: static_def)
  with HighlightClear show ?thesis by (simp add: quiet_def)
qed (simp_all add: quiet_def shrinks_refl)

lemma static_run_callback: "map static (doc (run_callback c s)) = map static (doc s)"
proof (cases "is_enter c")
  case False
  from quiet_run_callback [OF this] show ?thesis by (simp add: quiet_def shrinks_def)
next
  case True
  then obtain X where "c = NavEnter X" by (cases c) simp_all
  then show ?thesis by (simp add: Let_def playTransitionSound_def static_showSection)
qed

lemma host_run_callback:
  "host (run_callback c s) = host s"
  "loads (run_callback c s) = loads s"
  by (cases c; simp add: Let_def playTransitionSound_def showSection_fields highlightText_def)+

section \<open>What a callback does to the queue\<close>

lemma enter_result:
  assumes g: "getElementById (js_string X) (doc s) = Some t"
  shows "currentSection (run_callback (NavEnter X) s) = X"
    and "sole_active t (doc (run_callback (NavEnter X) s))"
    and "pushState_supported (host s) \<Longrightarrow>
           location_hash (run_callback (NavEnter X) s) = hash_of (js_string X)"
    and "timers (run_callback (NavEnter X) s) =
           timers s @ map (\<lambda>k. \<lparr>due = now s + k * 100, cb = CardIn t k\<rparr>)
                          [0..<length (cards (doc s ! t))]"
  using sole_active_showSection [OF g] timers_showSection_Some [OF g]
  by (simp_all add: Let_def playTransitionSound_def showSection_fields)

lemma timers_run_callback:
  "\<exists>new. timers (run_callback c s) = timers s @ new \<and> length new \<le> spawned (doc s) c \<and>
         (\<forall>u\<in>set new. \<not> is_enter (cb u) \<and> \<not> is_exit (cb u) \<and> (\<forall>d. spawned d (cb u) = 0))"
proof (cases c)
  case (NavEnter X)
  show ?thesis
  proof (cases "getElementById (js_string X) (doc s)")
    case None
    with NavEnter show ?thesis
      by (simp add: Let_def playTransitionSound_def timers_showSection_None)
  next
    case (Some t)
    from enter_result(4) [OF Some] NavEnter Some show ?thesis by auto
  qed
next
  case (SearchHighlight i q)
  then show ?thesis by (simp add: highlightText_def Let_def)
qed (simp_all add: Let_def)

lemma hash_run_callback:
  "\<not> is_enter c \<Longrightarrow> location_hash (run_callback c s) = location_hash s"
  by (cases c) (simp_all add: Let_def highlightText_def)


section \<open>Which timer runs next\<close>

lemma next_timer_SomeD:
  assumes "next_timer ts = Some k"
  shows "k < length ts" and "\<forall>u\<in>set ts. due (ts ! k) \<le> due u"
    and "\<forall>j<k. due (ts ! k) < due (ts ! j)"
proof -
  from first_index_SomeD [OF assms [unfolded next_timer_def]]
  have k: "k < length ts" and m: "list_all (\<lambda>u. due (ts ! k) \<le> due u) ts"
    and f: "\<forall>j<k. \<not> list_all (\<lambda>u. due (ts ! j) \<le> due u) ts"
    by simp_all
  show "k < length ts" by (rule k)
  from m show a: "\<forall>u\<in>set ts. due (ts ! k) \<le> due u" by (simp add: list_all_iff)
  show "\<forall>j<k. due (ts ! k) < due (ts ! j)"
  proof (intro allI impI)
    fix j assume "j < k"
    with f obtain u where u: "u \<in> set ts" "due u < due (ts ! j)"
      by (auto simp: list_all_iff not_le)
    with a show "due (ts ! k) < due (ts ! j)" by force
  qed
qed

lemma next_timer_ex: "ts \<noteq> [] \<Longrightarrow> \<exists>k. next_timer ts = Some k"
proof -
  assume ne: "ts \<noteq> []"
  let ?m = "arg_min_list due ts"
  have "?m \<in> set ts" by (rule arg_min_list_in [OF ne])
  moreover have "\<forall>u\<in>set ts. due ?m \<le> due u"
    by (simp add: f_arg_min_list_f [OF ne])
  ultimately have "\<exists>x\<in>set ts. list_all (\<lambda>u. due x \<le> due u) ts"
    by (auto simp: list_all_iff)
  then have "first_index (\<lambda>t. list_all (\<lambda>u. due t \<le> due u) ts) ts \<noteq> None"
    by (simp add: first_index_None)
  then show ?thesis by (auto simp: next_timer_def)
qed

lemma fire_Some:
  "next_timer (timers s) = Some k \<Longrightarrow>
   fire s = run_callback (cb (timers s ! k))
              (s\<lparr>timers := take k (timers s) @ drop (Suc k) (timers s),
                 now := max (now s) (due (timers s ! k))\<rparr>)"
  by (simp add: fire_def Let_def)

lemma fire_idle: "timers s = [] \<Longrightarrow> fire s = s"
  by (simp add: fire_def next_timer_def)

lemma set_remove_nth: "set (take k ts @ drop (Suc k) ts) \<subseteq> set ts"
  using set_take_subset [of k ts] set_drop_subset [of "Suc k" ts] by auto

section \<open>The queue empties\<close>

lemma weight_new:
  "\<forall>u\<in>set new. spawned d (cb u) = 0 \<Longrightarrow>
   sum_list (map (\<lambda>u. Suc (spawned d (cb u))) new) = length new"
  by (induction new) simp_all

lemma weight_static:
  "map static d' = map static d \<Longrightarrow>
   sum_list (map (\<lambda>u. Suc (spawned d' (cb u))) ts) = sum_list (map (\<lambda>u. Suc (spawned d (cb u))) ts)"
proof -
  assume a: "map static d' = map static d"
  have "spawned d' c = spawned d c" for c by (rule static_spawned [OF a])
  then show ?thesis by simp
qed

lemma weight_remove_nth:
  assumes "k < length ts"
  shows "sum_list (map f ts) = sum_list (map f (take k ts @ drop (Suc k) ts)) + (f (ts ! k) :: nat)"
proof -
  have "sum_list (map f ts) = sum_list (map f (take k ts @ ts ! k # drop (Suc k) ts))"
    using id_take_nth_drop [OF assms] by simp
  then show ?thesis by simp
qed

lemma weight_fire:
  assumes ne: "timers s \<noteq> []"
  shows "Suc (weight (fire s)) \<le> weight s"
proof -
  from next_timer_ex [OF ne] obtain k where k: "next_timer (timers s) = Some k" by blast
  then have kl: "k < length (timers s)" by (rule next_timer_SomeD)
  let ?u = "timers s ! k"
  let ?rest = "take k (timers s) @ drop (Suc k) (timers s)"
  let ?s1 = "s\<lparr>timers := ?rest, now := max (now s) (due ?u)\<rparr>"
  let ?w = "\<lambda>d ts. sum_list (map (\<lambda>u. Suc (spawned d (cb u))) ts)"
  have f: "fire s = run_callback (cb ?u) ?s1" by (rule fire_Some [OF k])
  from timers_run_callback [of "cb ?u" ?s1]
  obtain new where new: "timers (run_callback (cb ?u) ?s1) = ?rest @ new"
      "length new \<le> spawned (doc s) (cb ?u)"
      "\<forall>u\<in>set new. spawned (doc s) (cb u) = 0"
    by auto
  have st: "map static (doc (run_callback (cb ?u) ?s1)) = map static (doc s)"
    using static_run_callback [of "cb ?u" ?s1] by simp
  have "weight (fire s) = ?w (doc s) (?rest @ new)"
    by (simp add: weight_def f new(1) weight_static [OF st])
  also have "\<dots> = ?w (doc s) ?rest + length new"
    using weight_new [OF new(3)] by simp
  finally have a: "weight (fire s) \<le> ?w (doc s) ?rest + spawned (doc s) (cb ?u)"
    using new(2) by simp
  have "weight s = ?w (doc s) ?rest + Suc (spawned (doc s) (cb ?u))"
    unfolding weight_def by (rule weight_remove_nth [OF kl])
  with a show ?thesis by simp
qed

lemma weight_zero: "weight s = 0 \<Longrightarrow> timers s = []"
  by (cases "timers s") (simp_all add: weight_def)

lemma run_all_terminates:
  "weight s \<le> n \<Longrightarrow> \<exists>s'. run_all n s = Some s'"
proof (induction n arbitrary: s)
  case 0
  then show ?case by (simp add: weight_zero)
next
  case (Suc n)
  show ?case
  proof (cases "timers s = []")
    case True
    then show ?thesis by simp
  next
    case False
    from weight_fire [OF False] Suc.prems have "weight (fire s) \<le> n" by simp
    from Suc.IH [OF this] False show ?thesis by simp
  qed
qed

lemma run_all_invariant:
  assumes step: "\<And>s. I s \<Longrightarrow> I (fire s)"
  shows "I s \<Longrightarrow> run_all n s = Some s' \<Longrightarrow> I s' \<and> timers s' = []"
proof (induction n arbitrary: s)
  case 0
  then show ?case by (simp split: if_splits)
next
  case (Suc n)
  show ?case
  proof (cases "timers s = []")
    case True
    with Suc.prems show ?thesis by simp
  next
    case False
    with Suc.prems have "run_all n (fire s) = Some s'" by simp
    from Suc.IH [OF step [OF Suc.prems(1)] this] show ?thesis .
  qed
qed

section \<open>The last activation decides\<close>



lemma host_fire: "host (fire s) = host s" "loads (fire s) = loads s"
  by (simp_all add: fire_def Let_def host_run_callback split: option.splits)

lemma now_run_callback: "now (run_callback c s) = now s"
  by (cases c) (simp_all add: Let_def playTransitionSound_def showSection_fields highlightText_def)


lemma enter_fields:
  "currentSection (run_callback (NavEnter X) s) = X"
  "pushState_supported (host s) \<Longrightarrow>
     location_hash (run_callback (NavEnter X) s) = hash_of (js_string X)"
  "doc (run_callback (NavEnter X) s) = doc (showSection (js_string X) s)"
  by (simp_all add: Let_def playTransitionSound_def showSection_fields)

lemma new_timers_free:
  assumes gX: "\<And>c. G c \<Longrightarrow> is_enter c \<or> is_exit c"
  shows "\<exists>new. timers (run_callback c s) = timers s @ new \<and> (\<forall>u\<in>set new. \<not> G (cb u))"
proof -
  from timers_run_callback [of c s]
  obtain new where new: "timers (run_callback c s) = timers s @ new"
      "\<forall>u\<in>set new. \<not> is_enter (cb u) \<and> \<not> is_exit (cb u)"
    by auto
  from new(2) gX have "\<forall>u\<in>set new. \<not> G (cb u)" by blast
  with new(1) show ?thesis by blast
qed

lemma fire_settled:
  assumes se: "settled G X s"
    and gE: "\<And>c. is_enter c \<Longrightarrow> G c" and gX: "\<And>c. G c \<Longrightarrow> is_enter c \<or> is_exit c"
  shows "settled G X (fire s)"
proof (cases "timers s = []")
  case True
  with se show ?thesis by (simp add: fire_idle)
next
  case False
  from next_timer_ex [OF False] obtain k where k: "next_timer (timers s) = Some k" by blast
  then have kl: "k < length (timers s)" by (rule next_timer_SomeD)
  let ?u = "timers s ! k"
  let ?rest = "take k (timers s) @ drop (Suc k) (timers s)"
  let ?s1 = "s\<lparr>timers := ?rest, now := max (now s) (due ?u)\<rparr>"
  have f: "fire s = run_callback (cb ?u) ?s1" by (rule fire_Some [OF k])
  from kl have "?u \<in> set (timers s)" by simp
  with se have "\<not> G (cb ?u)" by (simp add: settled_def)
  with gE have ne: "\<not> is_enter (cb ?u)" by blast
  from new_timers_free [of G "cb ?u" ?s1, OF gX]
  obtain new where new: "timers (run_callback (cb ?u) ?s1) = ?rest @ new"
      "\<forall>u\<in>set new. \<not> G (cb u)"
    by auto
  have q: "quiet ?s1 (run_callback (cb ?u) ?s1)" by (rule quiet_run_callback [OF ne])
  then have cu: "currentSection (fire s) = currentSection s"
    by (simp add: quiet_def f)
  have h: "location_hash (fire s) = location_hash s"
    using hash_run_callback [OF ne, of ?s1] by (simp add: f)
  have tm: "\<forall>u\<in>set (timers (fire s)). \<not> G (cb u)"
  proof
    fix u assume "u \<in> set (timers (fire s))"
    then have "u \<in> set ?rest \<or> u \<in> set new" by (simp add: f new(1))
    then show "\<not> G (cb u)"
    proof
      assume "u \<in> set ?rest"
      with set_remove_nth [of k "timers s"] have "u \<in> set (timers s)" by blast
      with se show ?thesis by (simp add: settled_def)
    next
      assume "u \<in> set new"
      with new(2) show ?thesis by simp
    qed
  qed
  from tm se cu h show ?thesis by (simp add: settled_def host_fire)
qed


lemma remove_nth_before:
  "k < length pre \<Longrightarrow>
   (pre @ e # post) ! k = pre ! k \<and>
   take k (pre @ e # post) @ drop (Suc k) (pre @ e # post)
     = (take k pre @ drop (Suc k) pre) @ e # post"
  by (simp add: nth_append)

lemma remove_nth_at:
  "(pre @ e # post) ! length pre = e \<and>
   take (length pre) (pre @ e # post) @ drop (Suc (length pre)) (pre @ e # post) = pre @ post"
  by simp

lemma remove_nth_after:
  "length pre < k \<Longrightarrow>
   (pre @ e # post) ! k = post ! (k - Suc (length pre)) \<and>
   take k (pre @ e # post) @ drop (Suc k) (pre @ e # post)
     = pre @ e # (take (k - Suc (length pre)) post @ drop (Suc (k - Suc (length pre))) post)"
proof -
  assume "length pre < k"
  then obtain m where m: "k = Suc (length pre + m)"
    using less_iff_Suc_add by auto
  show ?thesis by (simp add: m nth_append)
qed

lemma pending_after_other:
  assumes gX: "\<And>c. G c \<Longrightarrow> is_enter c \<or> is_exit c"
    and dec: "rest = pre @ \<lparr>due = dX, cb = NavEnter X\<rparr> # post"
    and po: "\<forall>u\<in>set post. \<not> G (cb u)"
    and pr: "\<forall>u\<in>set pre. G (cb u) \<longrightarrow> due u \<le> dX"
  shows "pending G X (run_callback c (s\<lparr>timers := rest, now := n\<rparr>))"
proof -
  let ?s1 = "s\<lparr>timers := rest, now := n\<rparr>"
  from new_timers_free [of G c ?s1, OF gX]
  obtain new where new: "timers (run_callback c ?s1) = rest @ new"
      "\<forall>u\<in>set new. \<not> G (cb u)"
    by auto
  have "timers (run_callback c ?s1) = pre @ \<lparr>due = dX, cb = NavEnter X\<rparr> # (post @ new)
        \<and> (\<forall>u\<in>set (post @ new). \<not> G (cb u))
        \<and> (\<forall>u\<in>set pre. G (cb u) \<longrightarrow> due u \<le> dX)"
    using new po pr by (auto simp: dec)
  then show ?thesis
    unfolding pending_def by blast
qed

text \<open>
  One step from a state where the activation of \<open>X\<close> is pending: either it is still
  pending, or it has just run.
\<close>

lemma fire_pending:
  assumes pe: "pending G X s"
    and gE: "\<And>c. is_enter c \<Longrightarrow> G c" and gX: "\<And>c. G c \<Longrightarrow> is_enter c \<or> is_exit c"
  shows "pending G X (fire s) \<or>
         (settled G X (fire s) \<and> (\<exists>s1. fire s = run_callback (NavEnter X) s1 \<and> doc s1 = doc s))"
proof -
  from pe obtain pre post dX where
    dec: "timers s = pre @ \<lparr>due = dX, cb = NavEnter X\<rparr> # post"
    and po: "\<forall>u\<in>set post. \<not> G (cb u)"
    and pr: "\<forall>u\<in>set pre. G (cb u) \<longrightarrow> due u \<le> dX"
    by (auto simp: pending_def)
  let ?e = "\<lparr>due = dX, cb = NavEnter X\<rparr>"
  from dec have ne: "timers s \<noteq> []" by simp
  from next_timer_ex [OF ne] obtain k where k: "next_timer (timers s) = Some k" by blast
  note kd = next_timer_SomeD [OF k]
  let ?u = "timers s ! k"
  let ?rest = "take k (timers s) @ drop (Suc k) (timers s)"
  let ?n = "max (now s) (due ?u)"
  have f: "fire s = run_callback (cb ?u) (s\<lparr>timers := ?rest, now := ?n\<rparr>)"
    by (rule fire_Some [OF k])
  consider (before) "k < length pre" | (at) "k = length pre" | (after) "length pre < k"
    by linarith
  then show ?thesis
  proof cases
    case before
    from remove_nth_before [OF before, of ?e post]
    have r: "?rest = (take k pre @ drop (Suc k) pre) @ ?e # post" by (simp add: dec)
    have "\<forall>u\<in>set (take k pre @ drop (Suc k) pre). G (cb u) \<longrightarrow> due u \<le> dX"
      using pr set_remove_nth [of k pre] by blast
    from pending_after_other [of G, OF gX r po this] show ?thesis by (simp add: f)
  next
    case after
    let ?m = "k - Suc (length pre)"
    from remove_nth_after [OF after, of ?e post]
    have r: "?rest = pre @ ?e # (take ?m post @ drop (Suc ?m) post)" by (simp add: dec)
    have "\<forall>u\<in>set (take ?m post @ drop (Suc ?m) post). \<not> G (cb u)"
      using po set_remove_nth [of ?m post] by blast
    from pending_after_other [of G, OF gX r this pr] show ?thesis by (simp add: f)
  next
    case at
    from remove_nth_at [of pre ?e post] at
    have u: "?u = ?e" and r: "?rest = pre @ post" by (simp_all add: dec)
    have npre: "\<not> G (cb v)" if v: "v \<in> set pre" for v
    proof
      assume en: "G (cb v)"
      from v obtain j where j: "j < length pre" "pre ! j = v" by (auto simp: in_set_conv_nth)
      with at have "j < k" by simp
      with kd(3) have "due ?u < due (timers s ! j)" by simp
      with j u have "dX < due v" by (simp add: dec nth_append)
      with pr v en show False by force
    qed
    let ?s1 = "s\<lparr>timers := pre @ post, now := ?n\<rparr>"
    have f': "fire s = run_callback (NavEnter X) ?s1" using f u r by simp
    from new_timers_free [of G "NavEnter X" ?s1, OF gX]
    obtain new where new: "timers (run_callback (NavEnter X) ?s1) = (pre @ post) @ new"
        "\<forall>u\<in>set new. \<not> G (cb u)"
      by auto
    have b: "\<forall>u\<in>set (timers (fire s)). \<not> G (cb u)"
      unfolding f' new(1) using npre po new(2) by auto
    have ps: "host (fire s) = host ?s1"
      unfolding f' by (rule host_run_callback)
    have c: "pushState_supported (host (fire s)) \<longrightarrow>
               location_hash (fire s) = hash_of (js_string X)"
    proof
      assume "pushState_supported (host (fire s))"
      with ps have "pushState_supported (host ?s1)" by simp
      from enter_fields(2) [OF this] show "location_hash (fire s) = hash_of (js_string X)"
        unfolding f' .
    qed
    have d: "currentSection (fire s) = X" unfolding f' by (rule enter_fields(1))
    from b c d have "settled G X (fire s)"
      unfolding settled_def by blast
    moreover have "\<exists>s1. fire s = run_callback (NavEnter X) s1 \<and> doc s1 = doc s"
      using f' by (intro exI [of _ ?s1]) simp
    ultimately show ?thesis by blast
  qed
qed

lemma pending_timers: "pending G X s \<Longrightarrow> timers s \<noteq> []"
  by (auto simp: pending_def)

lemma run_all_settles:
  assumes "pending G X s \<or> settled G X s" and "run_all n s = Some s'"
    and gE: "\<And>c. is_enter c \<Longrightarrow> G c" and gX: "\<And>c. G c \<Longrightarrow> is_enter c \<or> is_exit c"
  shows "settled G X s' \<and> timers s' = []"
proof -
  have "(pending G X s' \<or> settled G X s') \<and> timers s' = []"
    by (rule run_all_invariant [where I = "\<lambda>s. pending G X s \<or> settled G X s", OF _ assms(1,2)])
       (use fire_pending [of G X, OF _ gE gX] fire_settled [of G X, OF _ gE gX] in blast)
  then show ?thesis using pending_timers by blast
qed




section \<open>A navigation from start to end\<close>

lemma navigateToChapter_proceeds:
  "X \<noteq> currentSection s \<Longrightarrow> getElementById (js_string X) (doc s) = Some t \<Longrightarrow>
   navigateToChapter X s =
     setTimeout (NavEnter X) 150
       (case getElementById (js_string (currentSection s)) (doc s) of
          None \<Rightarrow> s
        | Some c \<Rightarrow>
            setTimeout (NavExit c) 300
              (s\<lparr>doc := (doc s)[c := (doc s ! c)\<lparr>animation := ''fadeOut 0.3s ease-out''\<rparr>]\<rparr>))"
  by (auto simp: navigateToChapter_def Let_def)

lemma quiet_navigateToChapter: "quiet s (navigateToChapter X s)"
proof -
  have "shrinks (doc s) ((doc s)[c := (doc s ! c)\<lparr>animation := ''fadeOut 0.3s ease-out''\<rparr>])" for c
    by (rule shrinks_update) (simp_all add: static_def)
  then show ?thesis
    by (simp add: navigateToChapter_def Let_def quiet_def shrinks_refl split: option.splits)
qed

lemma static_navigateToChapter: "map static (doc (navigateToChapter X s)) = map static (doc s)"
  using quiet_navigateToChapter [of s X] by (simp add: quiet_def shrinks_def)

lemma navigateToChapter_fields:
  "currentSection (navigateToChapter X s) = currentSection s"
  "now (navigateToChapter X s) = now s"
  "location_hash (navigateToChapter X s) = location_hash s"
  "host (navigateToChapter X s) = host s"
  "loads (navigateToChapter X s) = loads s"
  "notifications (navigateToChapter X s) = notifications s"
  by (simp_all add: navigateToChapter_def Let_def split: option.splits)

lemma timers_navigateToChapter:
  "X \<noteq> currentSection s \<Longrightarrow> getElementById (js_string X) (doc s) = Some t \<Longrightarrow>
   timers (navigateToChapter X s) =
     timers s @
     (case getElementById (js_string (currentSection s)) (doc s) of
        None \<Rightarrow> []
      | Some c \<Rightarrow> [\<lparr>due = now s + 300, cb = NavExit c\<rparr>]) @
     [\<lparr>due = now s + 150, cb = NavEnter X\<rparr>]"
  by (simp add: navigateToChapter_proceeds split: option.splits)

lemma getElementById_navigateToChapter:
  "getElementById i (doc (navigateToChapter X s)) = getElementById i (doc s)"
  by (rule static_getElementById [OF static_navigateToChapter])

lemma active_navigateToChapter:
  "active (doc (navigateToChapter X s) ! k) = active (doc s ! k)"
proof -
  have "active (((doc s)[c := (doc s ! c)\<lparr>animation := a\<rparr>]) ! k) = active (doc s ! k)" for c a
    by (cases "c < length (doc s)") (simp_all add: nth_list_update list_update_beyond)
  then show ?thesis
    by (simp add: navigateToChapter_def Let_def split: option.splits)
qed

lemma length_navigateToChapter: "length (doc (navigateToChapter X s)) = length (doc s)"
  using static_length [OF static_navigateToChapter [of X s]] .

lemma pending_navigateToChapter:
  assumes ne: "X \<noteq> currentSection s" and g: "getElementById (js_string X) (doc s) = Some t"
    and tm: "timely G s"
    and gx: "\<And>c. getElementById (js_string (currentSection s)) (doc s) = Some c \<Longrightarrow>
                  \<not> G (NavExit c)"
  shows "pending G X (navigateToChapter X s)"
proof -
  let ?ex = "case getElementById (js_string (currentSection s)) (doc s) of
               None \<Rightarrow> [] | Some c \<Rightarrow> [\<lparr>due = now s + 300, cb = NavExit c\<rparr>]"
  have t: "timers (navigateToChapter X s) =
              (timers s @ ?ex) @ \<lparr>due = now s + 150, cb = NavEnter X\<rparr> # []"
    by (simp add: timers_navigateToChapter [OF ne g])
  have ex: "\<forall>u\<in>set ?ex. \<not> G (cb u)"
    using gx by (cases "getElementById (js_string (currentSection s)) (doc s)") simp_all
  have c: "\<forall>u\<in>set (timers s @ ?ex). G (cb u) \<longrightarrow> due u \<le> now s + 150"
    using tm ex by (auto simp: timely_def)
  have "\<exists>pre post dX.
          timers (navigateToChapter X s) = pre @ \<lparr>due = dX, cb = NavEnter X\<rparr> # post \<and>
          (\<forall>u\<in>set post. \<not> G (cb u)) \<and>
          (\<forall>u\<in>set pre. G (cb u) \<longrightarrow> due u \<le> dX)"
    by (rule exI [of _ "timers s @ ?ex"], rule exI [of _ "[]"], rule exI [of _ "now s + 150"])
       (use t c in simp)
  then show ?thesis
    unfolding pending_def .
qed

lemma run_all_host:
  assumes "run_all n s = Some s'"
  shows "host s' = host s \<and> loads s' = loads s"
proof -
  have "(host s' = host s \<and> loads s' = loads s) \<and> timers s' = []"
    by (rule run_all_invariant [where I = "\<lambda>r. host r = host s \<and> loads r = loads s",
          OF _ _ assms]) (simp_all add: host_fire)
  then show ?thesis by simp
qed

lemma hash_unwritten:
  assumes "\<not> pushState_supported (host s)"
  shows "location_hash (run_callback c s) = location_hash s"
proof (cases "is_enter c")
  case True
  then obtain X where "c = NavEnter X" by (cases c) simp_all
  with assms show ?thesis
    by (simp add: Let_def playTransitionSound_def showSection_fields)
next
  case False
  then show ?thesis by (rule hash_run_callback)
qed

lemma hash_fire_unwritten:
  "\<not> pushState_supported (host s) \<Longrightarrow> location_hash (fire s) = location_hash s"
  by (simp add: fire_def Let_def hash_unwritten split: option.splits)

lemma run_all_unwritten:
  assumes r: "run_all n s = Some s'" and old: "\<not> pushState_supported (host s)"
  shows "location_hash s' = location_hash s"
proof -
  have "(host s' = host s \<and> location_hash s' = location_hash s) \<and> timers s' = []"
  proof (rule run_all_invariant
      [where I = "\<lambda>r. host r = host s \<and> location_hash r = location_hash s", OF _ _ r])
    fix r :: state
    assume i: "host r = host s \<and> location_hash r = location_hash s"
    with old have "\<not> pushState_supported (host r)" by simp
    from hash_fire_unwritten [OF this] i host_fire(1) [of r]
    show "host (fire r) = host s \<and> location_hash (fire r) = location_hash s" by simp
  qed simp
  then show ?thesis by simp
qed

lemma percent_encode_plain:
  "32 < (of_char c :: nat) \<Longrightarrow> (of_char c :: nat) \<le> 126 \<Longrightarrow>
   (of_char c :: nat) \<notin> {34, 60, 62, 96} \<Longrightarrow> percent_encode c = [c]"
  by (simp add: percent_encode_def Let_def)

lemma hash_plain:
  assumes "url_plain str"
  shows "hash_of str = CHR ''#'' # str"
proof -
  from assms have ne: "str \<noteq> []"
    and pl: "\<forall>c\<in>set str. 32 < (of_char c :: nat) \<and> (of_char c :: nat) \<le> 126
                          \<and> (of_char c :: nat) \<notin> {34, 60, 62, 96}"
    by (simp_all add: url_plain_def)
  from ne have "hd (rev str) \<in> set str"
    by (simp add: hd_rev)
  with pl have "\<not> (of_char (hd (rev str)) :: nat) \<le> 32" by force
  then have a: "dropWhile (\<lambda>c. (of_char c :: nat) \<le> 32) (rev str) = rev str"
    by (simp add: dropWhile_eq_self_iff)
  have b: "filter (\<lambda>c. (of_char c :: nat) \<notin> {9, 10, 13}) str = str"
    using pl by (intro filter_True) force
  have b': "rev (rev str) = str" by simp
  have c: "concat (map percent_encode xs) = xs"
    if "\<forall>c\<in>set xs. 32 < (of_char c :: nat) \<and> (of_char c :: nat) \<le> 126
                      \<and> (of_char c :: nat) \<notin> {34, 60, 62, 96}" for xs
    using that by (induction xs) (simp_all add: percent_encode_plain)
  have "url_fragment str = str"
    unfolding url_fragment_def Let_def a b' b by (rule c [OF pl])
  with ne show ?thesis by (simp add: hash_of_def)
qed

text \<open>
  C5, refuted as stated. After a completed navigation to \<^verbatim>\<open>genesis\<close> on a host without
  \<^verbatim>\<open>history.pushState\<close> the fragment is as empty as before; and after a completed navigation
  to the section with id \<^verbatim>\<open>x<y\<close> the fragment reads \<^verbatim>\<open>#x%3Cy\<close>. In both runs \<^verbatim>\<open>currentSection\<close>
  is the target.
\<close>

theorem fragment_counterexample:
  "map_option (\<lambda>s. (timers s, currentSection s, location_hash s)) unpushed
     = Some ([], Some ''genesis'', [])
   \<and> map_option (\<lambda>s. (timers s, currentSection s, location_hash s)) odd_trip
     = Some ([], Some ''x<y'', ''#x%3Cy'')"
  by code_simp

text \<open>
  C5, amended. Let \<open>X\<close> be the id of an element of the page, other than the current section,
  and let every activation still pending be due within 150 ms (activations are created
  150 ms ahead, so this holds whenever the call is made). Then the timers of a call
  \<^verbatim>\<open>navigateToChapter(X)\<close> all run, and when none is left \<^verbatim>\<open>currentSection\<close> is \<open>X\<close>, the window
  has loaded no further document, and on a host with \<^verbatim>\<open>history.pushState\<close> the fragment is
  that of the URL \<^verbatim>\<open>#X\<close>: it reads \<^verbatim>\<open>#X\<close> itself when \<open>X\<close> is not empty and consists of
  printable ASCII characters other than space, double quote, \<^verbatim>\<open><\<close>, \<^verbatim>\<open>>\<close> and backquote.
  On a host without \<^verbatim>\<open>history.pushState\<close> the fragment is what it was before the call.
  The URL is written by \<^verbatim>\<open>history.pushState\<close> alone, which loads nothing; the script never
  assigns \<^verbatim>\<open>location\<close>, so no callback changes the count of loads.
\<close>

theorem navigate_completes:
  assumes ne: "X \<noteq> currentSection s"
    and g: "getElementById (js_string X) (doc s) = Some t"
    and en: "timely is_enter s"
  shows "\<exists>n s'. run_all n (navigateToChapter X s) = Some s' \<and> timers s' = [] \<and>
           currentSection s' = X \<and> loads s' = loads s \<and>
           (pushState_supported (host s) \<longrightarrow> location_hash s' = hash_of (js_string X)) \<and>
           (pushState_supported (host s) \<and> url_plain (js_string X) \<longrightarrow>
              location_hash s' = ''#'' @ js_string X) \<and>
           (\<not> pushState_supported (host s) \<longrightarrow> location_hash s' = location_hash s)"
proof -
  let ?s2 = "navigateToChapter X s"
  have pe: "pending is_enter X ?s2"
    by (rule pending_navigateToChapter [OF ne g en]) simp
  from run_all_terminates [of ?s2 "weight ?s2"]
  obtain s' where r: "run_all (weight ?s2) ?s2 = Some s'" by auto
  have se: "settled is_enter X s' \<and> timers s' = []"
    by (rule run_all_settles [OF _ r]) (use pe in auto)
  from run_all_host [OF r] have h: "host s' = host s" "loads s' = loads s"
    by (simp_all add: navigateToChapter_fields)
  from se h have a: "pushState_supported (host s) \<longrightarrow> location_hash s' = hash_of (js_string X)"
    by (simp add: settled_def)
  then have b: "pushState_supported (host s) \<and> url_plain (js_string X) \<longrightarrow>
                  location_hash s' = ''#'' @ js_string X"
    by (simp add: hash_plain)
  have c: "\<not> pushState_supported (host s) \<longrightarrow> location_hash s' = location_hash s"
    using run_all_unwritten [OF r] by (simp add: navigateToChapter_fields)
  from se have "currentSection s' = X" by (simp add: settled_def)
  with r se h a b c show ?thesis by blast
qed

theorem navigate_completes_witness:
  "Some ''genesis'' \<noteq> currentSection (init page2 [] ascii_host None)
   \<and> getElementById (js_string (Some ''genesis'')) (doc (init page2 [] ascii_host None)) = Some 3
   \<and> timely is_enter (init page2 [] ascii_host None)
   \<and> pushState_supported (host (init page2 [] ascii_host None))
   \<and> url_plain (js_string (Some ''genesis''))
   \<and> (\<exists>n s'. run_all n (navigateToChapter (Some ''genesis'') (init page2 [] ascii_host None))
                = Some s'
         \<and> timers s' = [] \<and> currentSection s' = Some ''genesis''
         \<and> loads s' = loads (init page2 [] ascii_host None)
         \<and> location_hash s' = ''#'' @ js_string (Some ''genesis''))"
proof -
  have a: "Some ''genesis'' \<noteq> currentSection (init page2 [] ascii_host None)"
    and b: "getElementById (js_string (Some ''genesis'')) (doc (init page2 [] ascii_host None))
              = Some 3"
    and c: "timely is_enter (init page2 [] ascii_host None)"
    and d: "pushState_supported (host (init page2 [] ascii_host None))"
    and e: "url_plain (js_string (Some ''genesis''))"
    by (simp_all add: model_defs sample_defs page2_def timely_def url_plain_def)
  from navigate_completes [OF a b c] a b c d e show ?thesis by blast
qed

section \<open>The two phases of a transition\<close>

text \<open>
  C4, as stated, fails: 150 ms after the call the target is the one active section while
  the exit callback of the previous section is still pending, due at 300 ms.
\<close>

theorem enter_before_exit_counterexample:
  "map_option now half_way = Some 150
   \<and> map_option active_sections half_way = Some [''genesis'']
   \<and> map_option timers half_way = Some [\<lparr>due = 300, cb = NavExit 2\<rparr>]"
  by code_simp

text \<open>
  C4, amended. A navigation from a page with no timer pending creates both callbacks at
  the call. The activation runs first, 150 ms after the call, and leaves the target as the
  one element marked active among the sections; the exit callback of the element that was
  current is due 300 ms after the call and is still pending then. The two elements differ
  when the two identifiers differ as strings.
\<close>

theorem navigate_phases:
  assumes idle: "timers s = []" and ne: "chapter \<noteq> currentSection s"
    and cur: "getElementById (js_string (currentSection s)) (doc s) = Some c"
    and nxt: "getElementById (js_string chapter) (doc s) = Some t"
  shows "timers (navigateToChapter chapter s) =
           [\<lparr>due = now s + 300, cb = NavExit c\<rparr>, \<lparr>due = now s + 150, cb = NavEnter chapter\<rparr>]
       \<and> now (fire (navigateToChapter chapter s)) = now s + 150
       \<and> sole_active t (doc (fire (navigateToChapter chapter s)))
       \<and> (js_string chapter \<noteq> js_string (currentSection s) \<longrightarrow> c \<noteq> t)
       \<and> hd (timers (fire (navigateToChapter chapter s))) = \<lparr>due = now s + 300, cb = NavExit c\<rparr>"
proof -
  let ?s2 = "navigateToChapter chapter s"
  let ?ex = "\<lparr>due = now s + 300, cb = NavExit c\<rparr>"
  let ?en = "\<lparr>due = now s + 150, cb = NavEnter chapter\<rparr>"
  have tm: "timers ?s2 = [?ex, ?en]"
    by (simp add: timers_navigateToChapter [OF ne nxt] idle cur)
  have k: "next_timer (timers ?s2) = Some 1"
    by (simp add: tm next_timer_def)
  let ?s3 = "?s2\<lparr>timers := [?ex], now := now s + 150\<rparr>"
  have f: "fire ?s2 = run_callback (NavEnter chapter) ?s3"
    by (simp add: fire_Some [OF k] tm navigateToChapter_fields)
  have g: "getElementById (js_string chapter) (doc ?s3) = Some t"
    using nxt by (simp add: getElementById_navigateToChapter)
  note res = enter_result [OF g]
  have a: "now (fire ?s2) = now s + 150"
    unfolding f now_run_callback by simp
  have b: "sole_active t (doc (fire ?s2))"
    unfolding f by (rule res(2))
  have d: "hd (timers (fire ?s2)) = ?ex"
    unfolding f res(4) by simp
  from getElementById_SomeD [OF cur] getElementById_SomeD [OF nxt]
  have "js_string chapter \<noteq> js_string (currentSection s) \<longrightarrow> c \<noteq> t" by auto
  with tm a b d show ?thesis by simp
qed

theorem navigate_phases_witness:
  "timers (init page2 [] ascii_host None) = []
   \<and> Some ''genesis'' \<noteq> currentSection (init page2 [] ascii_host None)
   \<and> getElementById (js_string (currentSection (init page2 [] ascii_host None)))
       (doc (init page2 [] ascii_host None)) = Some 2
   \<and> getElementById (js_string (Some ''genesis'')) (doc (init page2 [] ascii_host None)) = Some 3
   \<and> js_string (Some ''genesis'') \<noteq> js_string (currentSection (init page2 [] ascii_host None))
   \<and> timers (navigateToChapter (Some ''genesis'') (init page2 [] ascii_host None)) =
           [\<lparr>due = now (init page2 [] ascii_host None) + 300, cb = NavExit 2\<rparr>,
            \<lparr>due = now (init page2 [] ascii_host None) + 150, cb = NavEnter (Some ''genesis'')\<rparr>]
   \<and> now (fire (navigateToChapter (Some ''genesis'') (init page2 [] ascii_host None)))
       = now (init page2 [] ascii_host None) + 150
   \<and> sole_active 3 (doc (fire (navigateToChapter (Some ''genesis'') (init page2 [] ascii_host None))))
   \<and> (2::nat) \<noteq> 3
   \<and> hd (timers (fire (navigateToChapter (Some ''genesis'') (init page2 [] ascii_host None))))
       = \<lparr>due = now (init page2 [] ascii_host None) + 300, cb = NavExit 2\<rparr>"
proof -
  have a: "timers (init page2 [] ascii_host None) = []"
    and b: "Some ''genesis'' \<noteq> currentSection (init page2 [] ascii_host None)"
    and c: "getElementById (js_string (currentSection (init page2 [] ascii_host None)))
              (doc (init page2 [] ascii_host None)) = Some 2"
    and d: "getElementById (js_string (Some ''genesis'')) (doc (init page2 [] ascii_host None))
              = Some 3"
    and e: "js_string (Some ''genesis'')
              \<noteq> js_string (currentSection (init page2 [] ascii_host None))"
    by (simp_all add: model_defs sample_defs page2_def)
  from navigate_phases [OF a b c d] a b c d e show ?thesis by blast
qed

section \<open>Navigations in flight\<close>

lemma timely_due_by: "timely G s = due_by G (now s + 150) s"
  by (simp add: timely_def due_by_def)

lemma due_by_mono: "due_by G L s \<Longrightarrow> L \<le> L' \<Longrightarrow> due_by G L' s"
  by (force simp: due_by_def)











section \<open>What stays true of every page the user can reach\<close>

lemma menu_apart_static:
  assumes st: "map static d' = map static d" and ma: "menu_apart d"
  shows "menu_apart d'"
proof -
  have "data_chapter e = None \<and> \<not> nav_link e" if e: "e \<in> set d'" and c: "content_section e" for e
  proof -
    from e obtain k where k: "k < length d'" "d' ! k = e" by (auto simp: in_set_conv_nth)
    from static_length [OF st] k have kd: "k < length d" by simp
    from static_nth [OF st kd] k c
    have "content_section (d ! k)" "data_chapter (d ! k) = data_chapter e"
      "nav_link (d ! k) = nav_link e"
      by (simp_all add: static_def)
    moreover from kd have "d ! k \<in> set d" by simp
    ultimately show ?thesis using ma by (auto simp: menu_apart_def)
  qed
  then show ?thesis by (simp add: menu_apart_def)
qed

lemma shown_is_current_quiet:
  assumes inv: "shown_is_current s" and q: "quiet s s'"
  shows "shown_is_current s'"
proof -
  from q have st: "map static (doc s') = map static (doc s)"
    and sh: "shrinks (doc s) (doc s')" and cu: "currentSection s' = currentSection s"
    by (simp_all add: quiet_def shrinks_def)
  have l: "length (doc s') = length (doc s)" by (rule static_length [OF st])
  have "getElementById (js_string (currentSection s')) (doc s') = Some k"
    if k: "k < length (doc s')" and h: "content_section (doc s' ! k) \<and> active (doc s' ! k)" for k
  proof -
    from k l have kd: "k < length (doc s)" by simp
    from static_nth [OF st kd] h have "content_section (doc s ! k)" by (simp add: static_def)
    moreover from sh kd h have "active (doc s ! k)" by (simp add: shrinks_def)
    ultimately have "getElementById (js_string (currentSection s)) (doc s) = Some k"
      using inv kd by (simp add: shown_is_current_def)
    then show ?thesis by (simp add: cu static_getElementById [OF st])
  qed
  then show ?thesis by (simp add: shown_is_current_def)
qed

lemma page_inv_quiet:
  assumes i: "page_inv s" and q: "quiet s s'"
  shows "page_inv s'"
proof -
  from q have st: "map static (doc s') = map static (doc s)"
    by (simp add: quiet_def shrinks_def)
  from i have "menu_apart (doc s)" "shown_is_current s" by (simp_all add: page_inv_def)
  with menu_apart_static [OF st] shown_is_current_quiet [OF _ q]
  show ?thesis by (simp add: page_inv_def)
qed

lemma querySelector_SomeD:
  "querySelector_data_chapter c d = Some l \<Longrightarrow> l < length d \<and> data_chapter (d ! l) = Some c"
  by (auto simp: querySelector_data_chapter_def dest: first_index_SomeD)

lemma quiet_updateActiveNav:
  assumes ma: "menu_apart (doc s)" and l: "link < length (doc s)"
    and dc: "nav_link (doc s ! link) \<or> data_chapter (doc s ! link) \<noteq> None"
  shows "quiet s (updateActiveNav link s)"
proof -
  let ?d1 = "map (\<lambda>e. if nav_link e then e\<lparr>active := False\<rparr> else e) (doc s)"
  let ?d2 = "?d1[link := (?d1 ! link)\<lparr>active := True, transform := ''scale(0.98)''\<rparr>]"
  have s1: "map static ?d1 = map static (doc s)"
  proof -
    have "static (if nav_link e then e\<lparr>active := False\<rparr> else e) = static e" for e
      by (simp add: static_def)
    then show ?thesis by simp
  qed
  have a1: "shrinks (doc s) ?d1"
    using s1 by (simp add: shrinks_def)
  from l have "doc s ! link \<in> set (doc s)" by simp
  with ma dc have "\<not> content_section (doc s ! link)" by (auto simp: menu_apart_def)
  with l have nc: "\<not> content_section (?d1 ! link)" by simp
  have a2: "shrinks ?d1 ?d2"
    by (rule shrinks_update) (use nc in \<open>simp_all add: static_def\<close>)
  have "doc (updateActiveNav link s) = ?d2" "currentSection (updateActiveNav link s) = currentSection s"
    by (simp_all add: updateActiveNav_def Let_def)
  with shrinks_trans [OF a1 a2] show ?thesis by (simp add: quiet_def)
qed

lemma page_inv_updateActiveNav:
  assumes i: "page_inv s" and l: "link < length (doc s)"
    and dc: "nav_link (doc s ! link) \<or> data_chapter (doc s ! link) \<noteq> None"
  shows "page_inv (updateActiveNav link s)"
proof -
  from i have "menu_apart (doc s)" by (simp add: page_inv_def)
  from page_inv_quiet [OF i quiet_updateActiveNav [OF this l dc]] show ?thesis .
qed

lemma page_inv_markNavLink:
  assumes i: "page_inv s"
  shows "page_inv (markNavLink chapter s)"
proof (cases "querySelector_data_chapter chapter (doc s)")
  case None
  with i show ?thesis by (simp add: markNavLink_def)
next
  case (Some l)
  from querySelector_SomeD [OF Some] have "l < length (doc s)"
    "nav_link (doc s ! l) \<or> data_chapter (doc s ! l) \<noteq> None" by simp_all
  from page_inv_updateActiveNav [OF i this] Some show ?thesis by (simp add: markNavLink_def)
qed

lemma page_inv_navigateToChapter: "page_inv s \<Longrightarrow> page_inv (navigateToChapter X s)"
  by (rule page_inv_quiet [OF _ quiet_navigateToChapter])

lemma page_inv_setTimeout: "page_inv s \<Longrightarrow> page_inv (setTimeout f n s)"
  by (rule page_inv_quiet [OF _ quiet_setTimeout])

lemma page_inv_showNotification: "page_inv s \<Longrightarrow> page_inv (showNotification msg type s)"
  by (simp add: page_inv_def shown_is_current_def showNotification_def Let_def)

lemma page_inv_search_each:
  "page_inv s \<Longrightarrow> page_inv (snd (search_each term rest (found, s)))"
proof (induction rest arbitrary: found s)
  case Nil
  then show ?case by simp
next
  case (Cons i rest)
  show ?case
  proof (cases "str_includes (toLowerCase (host s) (textContent (doc s ! i))) term")
    case True
    let ?s3 = "setTimeout (SearchHighlight i term) 500
                 (markNavLink (el_id (doc s ! i))
                    (navigateToChapter (Some (el_id (doc s ! i))) s))"
    have "page_inv ?s3"
      by (intro page_inv_setTimeout page_inv_markNavLink page_inv_navigateToChapter Cons.prems)
    from Cons.IH [OF this, of True] True show ?thesis by (simp add: Let_def)
  next
    case False
    with Cons.IH [OF Cons.prems, of found] show ?thesis by (simp add: Let_def)
  qed
qed

lemma page_inv_performSearch: "page_inv s \<Longrightarrow> page_inv (performSearch term s)"
proof -
  assume i: "page_inv s"
  obtain f s1 where r: "search_each term (content_sections (doc s)) (False, s) = (f, s1)"
    by (cases "search_each term (content_sections (doc s)) (False, s)")
  from page_inv_search_each [OF i, of "term" "content_sections (doc s)" False] r
  have "page_inv s1" by simp
  with r show ?thesis by (simp add: performSearch_def page_inv_showNotification)
qed

lemma page_inv_showSearchDialog: "page_inv s \<Longrightarrow> page_inv (showSearchDialog answer s)"
  by (simp add: showSearchDialog_def page_inv_performSearch split: option.splits)

lemma page_inv_keys:
  "page_inv s \<Longrightarrow> page_inv (navigateWithArrowKeys key s)"
  "page_inv s \<Longrightarrow> page_inv (escapeKey s)"
  "page_inv s \<Longrightarrow> page_inv (quickNav n s)"
  by (simp_all add: navigateWithArrowKeys_def escapeKey_def quickNav_def Let_def
      page_inv_markNavLink page_inv_navigateToChapter)

lemma page_inv_clickNavLink:
  assumes i: "page_inv s" and l: "link < length (doc s)" and n: "nav_link (doc s ! link)"
  shows "page_inv (clickNavLink link s)"
proof -
  let ?s1 = "navigateToChapter (data_chapter (doc s ! link)) s"
  have st: "map static (doc ?s1) = map static (doc s)" by (rule static_navigateToChapter)
  from static_length [OF st] l have l1: "link < length (doc ?s1)" by simp
  from static_nth [OF st l] n
  have "nav_link (doc ?s1 ! link) \<or> data_chapter (doc ?s1 ! link) \<noteq> None"
    by (simp add: static_def)
  from page_inv_updateActiveNav [OF page_inv_navigateToChapter [OF i] l1 this]
  show ?thesis by (simp add: clickNavLink_def Let_def)
qed

lemma page_inv_timers [simp]: "page_inv (s\<lparr>timers := ts\<rparr>) = page_inv s"
  by (simp add: page_inv_def shown_is_current_def)

lemma page_inv_now [simp]: "page_inv (s\<lparr>now := n\<rparr>) = page_inv s"
  by (simp add: page_inv_def shown_is_current_def)

lemma shown_is_current_show:
  assumes d: "doc r = doc (showSection i s)" and c: "js_string (currentSection r) = i"
  shows "shown_is_current r"
proof (cases "getElementById i (doc s)")
  case None
  then have "doc r = hide_sections (doc s)" by (simp add: d showSection_None)
  then show ?thesis
    by (simp add: shown_is_current_def hide_sections_length hide_sections_nth)
next
  case (Some t)
  from sole_active_showSection [OF Some] d have so: "sole_active t (doc r)" by simp
  have "getElementById i (doc r) = Some t"
    using Some by (simp add: d static_getElementById [OF static_showSection])
  with so c show ?thesis by (simp add: shown_is_current_def sole_active_def)
qed

lemma page_inv_enter:
  assumes "menu_apart (doc s)"
  shows "page_inv (run_callback (NavEnter X) s)"
proof -
  let ?r = "run_callback (NavEnter X) s"
  have d: "doc ?r = doc (showSection (js_string X) s)"
    and c: "js_string (currentSection ?r) = js_string X"
    by (simp_all add: Let_def playTransitionSound_def)
  have "menu_apart (doc ?r)"
    by (rule menu_apart_static [OF static_run_callback assms])
  with shown_is_current_show [OF d c] show ?thesis by (simp add: page_inv_def)
qed

lemma page_inv_run_callback: "page_inv s \<Longrightarrow> page_inv (run_callback c s)"
proof (cases "is_enter c")
  case True
  assume i: "page_inv s"
  from True obtain X where "c = NavEnter X" by (cases c) simp_all
  with page_inv_enter [of s X] i show ?thesis by (simp add: page_inv_def)
next
  case False
  assume "page_inv s"
  then show ?thesis by (rule page_inv_quiet [OF _ quiet_run_callback [OF False]])
qed

lemma page_inv_fire: "page_inv s \<Longrightarrow> page_inv (fire s)"
proof (cases "next_timer (timers s)")
  case None
  assume "page_inv s"
  with None show ?thesis by (simp add: fire_def)
next
  case (Some k)
  assume "page_inv s"
  then have "page_inv (s\<lparr>timers := take k (timers s) @ drop (Suc k) (timers s),
                        now := max (now s) (due (timers s ! k))\<rparr>)"
    by simp
  then show ?thesis
    unfolding fire_Some [OF Some] by (rule page_inv_run_callback)
qed

lemma page_inv_init:
  assumes "menu_apart page"
  shows "page_inv (init page url_hash h scroll)"
proof -
  let ?s0 = "\<lparr>currentSection = Some ''introduction'', doc = page, timers = [], now = 0,
              location_hash = url_hash, loads = 1, host = h, scrollTop = scroll,
              notifications = []\<rparr>"
  let ?s1 = "showSection ''introduction'' ?s0"
  have "shown_is_current ?s1"
    by (rule shown_is_current_show [of _ "''introduction''" ?s0])
       (simp_all add: showSection_fields js_string_def)
  moreover have "menu_apart (doc ?s1)"
    using menu_apart_static [OF static_showSection, of ?s0 "''introduction''"] assms by simp
  ultimately have i: "page_inv ?s1" by (simp add: page_inv_def)
  have "page_inv (updateActiveNav l (navigateToChapter (Some c) ?s1))"
    if q: "querySelector_data_chapter c (doc ?s1) = Some l" for c l
  proof -
    let ?s2 = "navigateToChapter (Some c) ?s1"
    from querySelector_SomeD [OF q] have l: "l < length (doc ?s1)"
      and dc: "data_chapter (doc ?s1 ! l) = Some c" by simp_all
    have st: "map static (doc ?s2) = map static (doc ?s1)" by (rule static_navigateToChapter)
    from static_length [OF st] l have l2: "l < length (doc ?s2)" by simp
    from static_nth [OF st l] dc
    have "nav_link (doc ?s2 ! l) \<or> data_chapter (doc ?s2 ! l) \<noteq> None"
      by (simp add: static_def)
    from page_inv_updateActiveNav [OF page_inv_navigateToChapter [OF i] l2 this]
    show ?thesis .
  qed
  with i show ?thesis
    by (simp add: init_def Let_def js_string_def split: option.splits)
qed

lemma page_inv_exec1:
  assumes i: "page_inv s" and e: "exec1 ev s = Some s'"
  shows "page_inv s'"
proof (cases ev)
  case (Click link)
  with e have "link < length (doc s)" "nav_link (doc s ! link)" "s' = clickNavLink link s"
    by (auto simp: exec1_def split: if_splits)
  with page_inv_clickNavLink [OF i] show ?thesis by simp
next
  case (ArrowKey key)
  with e have "s' = navigateWithArrowKeys key s" by (auto simp: exec1_def split: if_splits)
  with page_inv_keys(1) [OF i] show ?thesis by simp
next
  case Escape
  with e have "s' = escapeKey s" by (simp add: exec1_def)
  with page_inv_keys(2) [OF i] show ?thesis by simp
next
  case (ModDigit n)
  with e have "s' = quickNav n s" by (simp add: exec1_def)
  with page_inv_keys(3) [OF i] show ?thesis by simp
next
  case (Search answer)
  with e have "s' = showSearchDialog answer s" by (simp add: exec1_def)
  with page_inv_showSearchDialog [OF i] show ?thesis by simp
next
  case Fire
  with e have "s' = fire s" by (auto simp: exec1_def split: option.splits if_splits)
  with page_inv_fire [OF i] show ?thesis by simp
next
  case (Wait t)
  with e have "s' = s\<lparr>now := t\<rparr>" by (auto simp: exec1_def split: if_splits)
  with i show ?thesis by simp
qed

lemma page_inv_exec: "page_inv s \<Longrightarrow> exec evs s = Some s' \<Longrightarrow> page_inv s'"
proof (induction evs arbitrary: s)
  case Nil
  then show ?case by simp
next
  case (Cons ev evs)
  from Cons.prems(2) obtain s1 where a: "exec1 ev s = Some s1" and b: "exec evs s1 = Some s'"
    by (auto split: option.splits)
  from Cons.IH [OF page_inv_exec1 [OF Cons.prems(1) a] b] show ?case .
qed

text \<open>
  C3, as stated, fails: after a double click on one menu entry and a click on another the
  queue is empty and no section is marked active.
\<close>

theorem blank_page_counterexample:
  "map_option timers double_click = Some []
   \<and> map_option currentSection double_click = Some (Some ''introduction'')
   \<and> map_option active_sections double_click = Some []"
  by code_simp

text \<open>
  C3, amended. Take a page on which no content section has the class or the attribute of
  a menu entry, and whose sections have plain texts and ids; let the fragment of the
  startup URL stand for itself in a selector and let the search terms be plain text, so
  that the script adds no element to the page but notifications. In every state reached
  from startup by clicks on menu entries (with or without a \<^verbatim>\<open>data-chapter\<close> attribute),
  keys, searches, timers and waiting, a section that is marked active is the element
  \<^verbatim>\<open>currentSection\<close> names, and so at most one section is marked active. The other listeners
  of the script (window buttons, ripple, key sequence, resize, scroll) write neither
  \<^verbatim>\<open>currentSection\<close> nor the classes of an element with an id or of a section.
\<close>

theorem active_section_is_current:
  assumes "menu_apart page" and "plain_page page" and "selector_safe (drop 1 url_hash)"
    and "list_all (plain_event h) evs"
    and "exec evs (init page url_hash h scroll) = Some s"
  shows "(\<forall>k<length (doc s). content_section (doc s ! k) \<and> active (doc s ! k) \<longrightarrow>
            getElementById (js_string (currentSection s)) (doc s) = Some k)
       \<and> (\<forall>j<length (doc s). \<forall>k<length (doc s).
            content_section (doc s ! j) \<and> active (doc s ! j) \<and>
            content_section (doc s ! k) \<and> active (doc s ! k) \<longrightarrow> j = k)"
proof -
  from page_inv_exec [OF page_inv_init [OF assms(1)] assms(5)]
  have a: "\<forall>k<length (doc s). content_section (doc s ! k) \<and> active (doc s ! k) \<longrightarrow>
            getElementById (js_string (currentSection s)) (doc s) = Some k"
    by (simp add: page_inv_def shown_is_current_def)
  then have "\<forall>j<length (doc s). \<forall>k<length (doc s).
            content_section (doc s ! j) \<and> active (doc s ! j) \<and>
            content_section (doc s ! k) \<and> active (doc s ! k) \<longrightarrow> j = k"
    by (metis option.inject)
  with a show ?thesis by blast
qed

theorem active_section_is_current_witness:
  "menu_apart page2 \<and> plain_page page2 \<and> selector_safe (drop 1 [])
   \<and> list_all (plain_event ascii_host) [Click 1, Wait 150, Fire]
   \<and> map_option (\<lambda>s. 3 < length (doc s) \<and> content_section (doc s ! 3) \<and> active (doc s ! 3))
        (exec [Click 1, Wait 150, Fire] (init page2 [] ascii_host None)) = Some True
   \<and> map_option currentSection (exec [Click 1, Wait 150, Fire] (init page2 [] ascii_host None))
        = Some (Some ''genesis'')
   \<and> map_option (\<lambda>s. getElementById (js_string (currentSection s)) (doc s))
        (exec [Click 1, Wait 150, Fire] (init page2 [] ascii_host None)) = Some (Some 3)"
proof -
  let ?r = "exec [Click 1, Wait 150, Fire] (init page2 [] ascii_host None)"
  have a: "menu_apart page2" by code_simp
  have b: "plain_page page2" by code_simp
  have c: "selector_safe (drop 1 [])" by code_simp
  have d: "list_all (plain_event ascii_host) [Click 1, Wait 150, Fire]" by code_simp
  have e: "map_option (\<lambda>s. 3 < length (doc s) \<and> content_section (doc s ! 3) \<and> active (doc s ! 3))
             ?r = Some True"
    by code_simp
  have f: "map_option currentSection ?r = Some (Some ''genesis'')" by code_simp
  from e obtain s where s: "?r = Some s" "3 < length (doc s)" "content_section (doc s ! 3)"
      "active (doc s ! 3)"
    by blast
  from active_section_is_current [OF a b c d s(1)] s(2-4)
  have "getElementById (js_string (currentSection s)) (doc s) = Some 3" by blast
  then have g: "map_option (\<lambda>s. getElementById (js_string (currentSection s)) (doc s)) ?r
                  = Some (Some 3)"
    unfolding s(1) by simp
  from a b c d e f g show ?thesis by blast
qed

end
